theory Spec2Isabelle
  imports Complex_Main "HOL-Library.Product_Lexorder" "HOL-Library.Multiset"
begin

section \<open>Grid path planning: the A* search of \<^verbatim>\<open>autonomous_parking.py\<close>\<close>

text \<open>
  The development follows the three functions of the source that carry the search:
  \<^verbatim>\<open>heuristic\<close>, \<^verbatim>\<open>get_neighbors\<close> and \<^verbatim>\<open>astar\<close>.

  Conventions of the embedding.
  \<^item> Python integers are \<^typ>\<open>int\<close>; a cell is a pair of them.
  \<^item> The values of type \<^verbatim>\<open>float\<close> (costs, priorities, the heuristic) are real numbers:
    \<^verbatim>\<open>np.sqrt\<close> is \<^term>\<open>sqrt\<close> and the arithmetic is exact. Rounding of the 64-bit
    floating-point format is not part of the model.
  \<^item> A two-dimensional \<^verbatim>\<open>np.ndarray\<close> is its shape and its contents. Reading it with an
    index pair follows numpy: an index \<open>i\<close> of an axis of length \<open>n\<close> is accepted when
    \<open>-n \<le> i < n\<close>, a negative one counts from the end, any other raises \<^verbatim>\<open>IndexError\<close>.
  \<^item> A \<^verbatim>\<open>dict\<close> is a map; a missing key raises \<^verbatim>\<open>KeyError\<close>.
  \<^item> Exceptions are values: a computation returns \<open>Inl e\<close> when it raises \<open>e\<close>.
  \<^item> The two \<^verbatim>\<open>while\<close> loops are partial functions into \<open>option\<close>: \<open>None\<close> means that
    the loop runs forever.
\<close>

subsection \<open>Data model\<close>

datatype error = IndexError | KeyError

type_synonym cell = "int \<times> int"

record grid =
  shape0 :: nat
  shape1 :: nat
  cells :: "nat \<Rightarrow> nat \<Rightarrow> int"

text \<open>\<^verbatim>\<open>grid[i, j]\<close>, with numpy's treatment of negative and out-of-range indices.\<close>

definition getitem :: "grid \<Rightarrow> int \<Rightarrow> int \<Rightarrow> error + int" where
  "getitem g i j =
     (if - int (shape0 g) \<le> i \<and> i < int (shape0 g) \<and> - int (shape1 g) \<le> j \<and> j < int (shape1 g)
      then Inr (cells g (nat (i mod int (shape0 g))) (nat (j mod int (shape1 g))))
      else Inl IndexError)"

subsection \<open>Computations that read the grid\<close>

text \<open>
  A computation that reads the grid yields the list of index pairs it has read, in order,
  and its outcome. Sequencing stops at the first exception.
\<close>

type_synonym 'a traced = "(int \<times> int) list \<times> (error + 'a)"

definition ret :: "'a \<Rightarrow> 'a traced" where
  "ret x = ([], Inr x)"

definition bind_t :: "'a traced \<Rightarrow> ('a \<Rightarrow> 'b traced) \<Rightarrow> 'b traced" where
  "bind_t m f =
     (case m of
        (l, Inl e) \<Rightarrow> (l, Inl e)
      | (l, Inr x) \<Rightarrow> (case f x of (l', r) \<Rightarrow> (l @ l', r)))"

definition read_grid :: "grid \<Rightarrow> int \<Rightarrow> int \<Rightarrow> int traced" where
  "read_grid g i j = ([(i, j)], getitem g i j)"

text \<open>A \<^verbatim>\<open>for\<close> loop over a list, threading the value the body updates.\<close>

fun for_each :: "'b list \<Rightarrow> ('b \<Rightarrow> 'a \<Rightarrow> 'a traced) \<Rightarrow> 'a \<Rightarrow> 'a traced" where
  "for_each [] body acc = ret acc"
| "for_each (x # xs) body acc = bind_t (body x acc) (for_each xs body)"

subsection \<open>\<^verbatim>\<open>heuristic\<close>\<close>

definition heuristic :: "cell \<Rightarrow> cell \<Rightarrow> real" where
  "heuristic a b =
     (let dx = \<bar>fst a - fst b\<bar>;
          dy = \<bar>snd a - snd b\<bar>
      in (real_of_int dx + real_of_int dy) + (sqrt 2 - 2) * real_of_int (min dx dy))"

subsection \<open>\<^verbatim>\<open>get_neighbors\<close>\<close>

text \<open>
  The body of the inner loop, for one offset \<open>(dx, dy)\<close>; \<open>neighbors\<close> is the list built
  so far. The \<^verbatim>\<open>or\<close> of the source reads its second operand only when the first is false.
\<close>

definition visit :: "grid \<Rightarrow> cell \<Rightarrow> int \<Rightarrow> int \<Rightarrow> cell list \<Rightarrow> cell list traced" where
  "visit g node dx dy neighbors =
     (let x = fst node; y = snd node in
      if dx = 0 \<and> dy = 0 then ret neighbors
      else
        let nx = x + dx; ny = y + dy;
            dest = bind_t (read_grid g nx ny)
                     (\<lambda>v. if v = 0 then ret (neighbors @ [(nx, ny)]) else ret neighbors)
        in
        if 0 \<le> nx \<and> nx < int (shape0 g) \<and> 0 \<le> ny \<and> ny < int (shape1 g) then
          (if dx \<noteq> 0 \<and> dy \<noteq> 0 then
             bind_t (read_grid g (x + dx) y)
               (\<lambda>a. if a = 1 then ret neighbors
                    else bind_t (read_grid g x (y + dy))
                           (\<lambda>b. if b = 1 then ret neighbors else dest))
           else dest)
        else ret neighbors)"

definition get_neighbors_traced :: "cell \<Rightarrow> grid \<Rightarrow> cell list traced" where
  "get_neighbors_traced node g =
     for_each [-1, 0, 1] (\<lambda>dx. for_each [-1, 0, 1] (\<lambda>dy. visit g node dx dy)) []"

definition get_neighbors :: "cell \<Rightarrow> grid \<Rightarrow> error + cell list" where
  "get_neighbors node g = snd (get_neighbors_traced node g)"

text \<open>The index pairs \<^verbatim>\<open>get_neighbors\<close> reads from the grid.\<close>

definition get_neighbors_reads :: "cell \<Rightarrow> grid \<Rightarrow> (int \<times> int) list" where
  "get_neighbors_reads node g = fst (get_neighbors_traced node g)"

subsection \<open>\<^verbatim>\<open>astar\<close>\<close>

text \<open>
  A frontier entry is the tuple \<^verbatim>\<open>(priority, cost, node)\<close>. Python compares tuples
  lexicographically, which is the order of products used here. \<^verbatim>\<open>heapq\<close> keeps the entries
  in a list arranged as a binary heap; \<^verbatim>\<open>heappush\<close> adds an entry and \<^verbatim>\<open>heappop\<close> removes
  and returns a least one. Entries that compare equal are equal, so the list of entries
  with these two operations shows everything the search can observe of the heap.
\<close>

type_synonym entry = "real \<times> real \<times> cell"

definition heappush :: "entry list \<Rightarrow> entry \<Rightarrow> entry list" where
  "heappush h e = e # h"

definition heappop :: "entry list \<Rightarrow> error + (entry \<times> entry list)" where
  "heappop h =
     (if h = [] then Inl IndexError
      else Inr (Min (set h), remove1 (Min (set h)) h))"

record search_state =
  open_set :: "entry list"
  came_from :: "cell \<rightharpoonup> cell"
  cost_so_far :: "cell \<rightharpoonup> real"

text \<open>The body of \<^verbatim>\<open>for neighbor in get_neighbors(current, grid)\<close>.\<close>

definition relax :: "cell \<Rightarrow> cell \<Rightarrow> real \<Rightarrow> search_state \<Rightarrow> cell \<Rightarrow> search_state" where
  "relax goal current current_cost st neighbor =
     (let move_cost = sqrt (real_of_int ((fst neighbor - fst current)\<^sup>2
                                        + (snd neighbor - snd current)\<^sup>2));
          new_cost = current_cost + move_cost
      in if (case cost_so_far st neighbor of None \<Rightarrow> True | Some c \<Rightarrow> new_cost < c) then
           st\<lparr>cost_so_far := (cost_so_far st)(neighbor \<mapsto> new_cost),
              open_set := heappush (open_set st) (new_cost + heuristic neighbor goal, new_cost, neighbor),
              came_from := (came_from st)(neighbor \<mapsto> current)\<rparr>
         else st)"

text \<open>\<^verbatim>\<open>while open_set: ...\<close>, up to the \<^verbatim>\<open>break\<close> or the exhaustion of the frontier.\<close>

partial_function (option) search :: "cell \<Rightarrow> grid \<Rightarrow> search_state \<Rightarrow> (error + search_state) option" where
  "search goal g st =
     (if open_set st = [] then Some (Inr st)
      else
        (case heappop (open_set st) of
           Inl e \<Rightarrow> Some (Inl e)
         | Inr ((priority, current_cost, current), rest) \<Rightarrow>
             if current = goal then Some (Inr (st\<lparr>open_set := rest\<rparr>))
             else
               (case get_neighbors current g of
                  Inl e \<Rightarrow> Some (Inl e)
                | Inr ns \<Rightarrow>
                    search goal g
                      (foldl (relax goal current current_cost) (st\<lparr>open_set := rest\<rparr>) ns))))"

text \<open>\<^verbatim>\<open>while current != start: path.append(current); current = came_from[current]\<close>.\<close>

partial_function (option) reconstruct ::
    "(cell \<rightharpoonup> cell) \<Rightarrow> cell \<Rightarrow> cell \<Rightarrow> cell list \<Rightarrow> (error + cell list) option" where
  "reconstruct cf start current path =
     (if current \<noteq> start then
        (case cf current of
           None \<Rightarrow> Some (Inl KeyError)
         | Some p \<Rightarrow> reconstruct cf start p (path @ [current]))
      else Some (Inr path))"

definition initial_state :: "cell \<Rightarrow> search_state" where
  "initial_state start =
     \<lparr>open_set = heappush [] (0, 0, start), came_from = Map.empty, cost_so_far = [start \<mapsto> 0]\<rparr>"

text \<open>
  The result of \<^verbatim>\<open>astar\<close>: \<open>None\<close> when the call does not return, \<open>Some (Inl e)\<close> when it
  raises \<open>e\<close>, \<open>Some (Inr None)\<close> when it returns \<^verbatim>\<open>None\<close> and \<open>Some (Inr (Some path))\<close>
  when it returns the list \<open>path\<close>.
\<close>

definition astar :: "cell \<Rightarrow> cell \<Rightarrow> grid \<Rightarrow> (error + cell list option) option" where
  "astar start goal g =
     (case search goal g (initial_state start) of
        None \<Rightarrow> None
      | Some (Inl e) \<Rightarrow> Some (Inl e)
      | Some (Inr st) \<Rightarrow>
          if came_from st goal = None then Some (Inr None)
          else
            (case reconstruct (came_from st) start goal [] of
               None \<Rightarrow> None
             | Some (Inl e) \<Rightarrow> Some (Inl e)
             | Some (Inr path) \<Rightarrow> Some (Inr (Some (rev (path @ [start]))))))"

subsection \<open>Vocabulary of the properties\<close>

text \<open>A cell lies inside the grid; the occupancy value of a cell that does.\<close>

definition in_bounds :: "grid \<Rightarrow> cell \<Rightarrow> bool" where
  "in_bounds g c = (0 \<le> fst c \<and> fst c < int (shape0 g) \<and> 0 \<le> snd c \<and> snd c < int (shape1 g))"

definition occupancy :: "grid \<Rightarrow> cell \<Rightarrow> int" where
  "occupancy g c = cells g (nat (fst c)) (nat (snd c))"

text \<open>
  The adjacency rule in the words of the specification: the offset \<open>d\<close> from \<open>node\<close> is
  not \<open>(0, 0)\<close>, the destination is inside the grid and has occupancy 0, and for a
  diagonal offset neither of the two pass-through cells is an obstacle (occupancy 1).
\<close>

definition legal_move :: "grid \<Rightarrow> cell \<Rightarrow> int \<times> int \<Rightarrow> bool" where
  "legal_move g node d =
     (let x = fst node; y = snd node; dx = fst d; dy = snd d in
      d \<noteq> (0, 0) \<and> in_bounds g (x + dx, y + dy) \<and> occupancy g (x + dx, y + dy) = 0 \<and>
      (dx \<noteq> 0 \<and> dy \<noteq> 0 \<longrightarrow> occupancy g (x + dx, y) \<noteq> 1 \<and> occupancy g (x, y + dy) \<noteq> 1))"

text \<open>The nine offsets, in the order in which the two loops of the source enumerate them.\<close>

definition offsets :: "(int \<times> int) list" where
  "offsets = List.product [-1, 0, 1] [-1, 0, 1]"

text \<open>Two distinct cells that differ by at most one in each coordinate.\<close>

definition adjacent :: "cell \<Rightarrow> cell \<Rightarrow> bool" where
  "adjacent p q = (p \<noteq> q \<and> \<bar>fst q - fst p\<bar> \<le> 1 \<and> \<bar>snd q - snd p\<bar> \<le> 1)"

subsection \<open>Example grids\<close>

text \<open>A single free cell.\<close>

definition free_1x1 :: grid where
  "free_1x1 = \<lparr>shape0 = 1, shape1 = 1, cells = (\<lambda>i j. 0)\<rparr>"

text \<open>Three rows and three columns, with one obstacle at row 0, column 1.\<close>

definition wall_3x3 :: grid where
  "wall_3x3 = \<lparr>shape0 = 3, shape1 = 3, cells = (\<lambda>i j. if (i, j) = (0, 1) then 1 else 0)\<rparr>"

text \<open>One row of two free cells.\<close>

definition free_1x2 :: grid where
  "free_1x2 = \<lparr>shape0 = 1, shape1 = 2, cells = (\<lambda>i j. 0)\<rparr>"

text \<open>One row of three cells, the middle one an obstacle.\<close>

definition split_1x3 :: grid where
  "split_1x3 = \<lparr>shape0 = 1, shape1 = 3, cells = (\<lambda>i j. if j = 1 then 1 else 0)\<rparr>"

subsection \<open>Paths and their cost\<close>

text \<open>The cost of the step from \<open>p\<close> to \<open>q\<close>, the \<^verbatim>\<open>move_cost\<close> of the search loop.\<close>

definition step_cost :: "cell \<Rightarrow> cell \<Rightarrow> real" where
  "step_cost p q = sqrt (real_of_int ((fst q - fst p)\<^sup>2 + (snd q - snd p)\<^sup>2))"

text \<open>\<open>q\<close> is one of the cells that \<^verbatim>\<open>get_neighbors(p, grid)\<close> returns.\<close>

definition is_neighbor :: "grid \<Rightarrow> cell \<Rightarrow> cell \<Rightarrow> bool" where
  "is_neighbor g p q = (case get_neighbors p g of Inl e \<Rightarrow> False | Inr ns \<Rightarrow> q \<in> set ns)"

text \<open>A legal path: each cell is a neighbor of the one before it.\<close>

fun legal_path :: "grid \<Rightarrow> cell list \<Rightarrow> bool" where
  "legal_path g [] = True"
| "legal_path g [p] = True"
| "legal_path g (p # q # ps) = (is_neighbor g p q \<and> legal_path g (q # ps))"

text \<open>The total edge cost of a path.\<close>

fun path_cost :: "cell list \<Rightarrow> real" where
  "path_cost [] = 0"
| "path_cost [p] = 0"
| "path_cost (p # q # ps) = step_cost p q + path_cost (q # ps)"

text \<open>The goal can be reached from the start by a legal path.\<close>

definition reachable :: "grid \<Rightarrow> cell \<Rightarrow> cell \<Rightarrow> bool" where
  "reachable g start goal = (\<exists>ps. ps \<noteq> [] \<and> hd ps = start \<and> last ps = goal \<and> legal_path g ps)"

subsection \<open>Vocabulary of the search invariants\<close>

text \<open>
  The values a cost can take: sums of step costs, that is \<open>a + b \<surd>2\<close> for natural numbers
  \<open>a\<close> (orthogonal steps) and \<open>b\<close> (diagonal steps).
\<close>

definition costs :: "real set" where
  "costs = {real a + real b * sqrt 2 | a b. True}"

text \<open>The number of such values below \<open>c\<close>; it orders the costs like the natural numbers.\<close>

definition rank :: "real \<Rightarrow> nat" where
  "rank c = card {(a :: nat, b :: nat). real a + real b * sqrt 2 < c}"

text \<open>
  The two outcomes of the body of the neighbor loop: the test that decides whether the
  neighbor is recorded, and the state after recording it with the new cost \<open>nc\<close>.
\<close>

definition improves :: "real \<Rightarrow> search_state \<Rightarrow> cell \<Rightarrow> bool" where
  "improves nc st nb = (case cost_so_far st nb of None \<Rightarrow> True | Some c0 \<Rightarrow> nc < c0)"

definition recorded :: "cell \<Rightarrow> cell \<Rightarrow> real \<Rightarrow> search_state \<Rightarrow> cell \<Rightarrow> search_state" where
  "recorded goal cur nc st nb =
     st\<lparr>cost_so_far := (cost_so_far st)(nb \<mapsto> nc),
        open_set := (nc + heuristic nb goal, nc, nb) # open_set st,
        came_from := (came_from st)(nb \<mapsto> cur)\<rparr>"

text \<open>
  The invariant of the search loop, for a search from \<open>start\<close> on the grid \<open>g\<close>, in five
  parts: the start has cost 0 and no predecessor; the other cells have a cost exactly when
  they have a predecessor; every recorded cost is a sum of step costs and belongs to the
  start or to a cell of the grid; every frontier entry carries such a cost, not below the
  recorded cost of its cell; and every predecessor link is a legal step along which the
  recorded costs grow by at least the cost of the step.
\<close>

definition inv_start :: "cell \<Rightarrow> search_state \<Rightarrow> bool" where
  "inv_start start st = (cost_so_far st start = Some 0 \<and> came_from st start = None)"

definition inv_dom :: "cell \<Rightarrow> search_state \<Rightarrow> bool" where
  "inv_dom start st = (\<forall>n. n \<noteq> start \<longrightarrow> (cost_so_far st n = None) = (came_from st n = None))"

definition inv_costs :: "cell \<Rightarrow> grid \<Rightarrow> search_state \<Rightarrow> bool" where
  "inv_costs start g st =
     (\<forall>n c. cost_so_far st n = Some c \<longrightarrow> c \<in> costs \<and> (n = start \<or> in_bounds g n))"

definition inv_heap :: "search_state \<Rightarrow> bool" where
  "inv_heap st =
     (\<forall>e \<in> set (open_set st).
        fst (snd e) \<in> costs \<and> (\<exists>c'. cost_so_far st (snd (snd e)) = Some c' \<and> c' \<le> fst (snd e)))"

definition inv_pred :: "grid \<Rightarrow> search_state \<Rightarrow> bool" where
  "inv_pred g st =
     (\<forall>n p. came_from st n = Some p \<longrightarrow>
        is_neighbor g p n \<and>
        (\<exists>cn cp. cost_so_far st n = Some cn \<and> cost_so_far st p = Some cp \<and> cp + step_cost p n \<le> cn))"

definition search_inv :: "cell \<Rightarrow> grid \<Rightarrow> search_state \<Rightarrow> bool" where
  "search_inv start g st =
     (inv_start start st \<and> inv_dom start st \<and> inv_costs start g st \<and> inv_heap st \<and> inv_pred g st)"

text \<open>
  What holds while the neighbors of the popped cell \<open>cur\<close>, popped with cost \<open>c\<close>, are
  being processed.
\<close>

definition relax_pre :: "cell \<Rightarrow> grid \<Rightarrow> cell \<Rightarrow> real \<Rightarrow> search_state \<Rightarrow> bool" where
  "relax_pre start g cur c st =
     (search_inv start g st \<and> c \<in> costs \<and> (\<exists>c'. cost_so_far st cur = Some c' \<and> c' \<le> c))"

subsection \<open>Vocabulary of the termination argument\<close>

text \<open>
  The quantities that decrease in the search loop: the number of cells without a recorded
  cost, the sum of the ranks of the recorded costs, and the length of the frontier, in
  lexicographic order. The cells that can get a cost are the start and the cells of the
  grid.
\<close>

definition universe :: "cell \<Rightarrow> grid \<Rightarrow> cell set" where
  "universe start g = insert start {n. in_bounds g n}"

definition unseen :: "cell \<Rightarrow> grid \<Rightarrow> search_state \<Rightarrow> nat" where
  "unseen start g st = card {n \<in> universe start g. cost_so_far st n = None}"

definition total_rank :: "cell \<Rightarrow> grid \<Rightarrow> search_state \<Rightarrow> nat" where
  "total_rank start g st =
     (\<Sum>n \<in> universe start g. case cost_so_far st n of None \<Rightarrow> 0 | Some c \<Rightarrow> rank c)"

definition progress :: "cell \<Rightarrow> grid \<Rightarrow> search_state \<Rightarrow> search_state \<Rightarrow> bool" where
  "progress start g st' st =
     (unseen start g st' < unseen start g st \<or>
      unseen start g st' = unseen start g st \<and> total_rank start g st' < total_rank start g st)"

definition search_order :: "cell \<Rightarrow> grid \<Rightarrow> (search_state \<times> search_state) set" where
  "search_order start g =
     inv_image (less_than <*lex*> less_than <*lex*> less_than)
       (\<lambda>st. (unseen start g st, total_rank start g st, length (open_set st)))"

subsection \<open>Vocabulary of the optimality argument\<close>

text \<open>
  For a legal path \<open>ps\<close> from the start to the goal: the cell at position \<open>i\<close> is \<^emph>\<open>good\<close>
  when its recorded cost is at most the cost of the path up to it; it is \<^emph>\<open>queued\<close> when the
  frontier holds an entry for it with such a cost; it is \<^emph>\<open>pending\<close> when it is the cell
  \<open>cur\<close> being expanded, popped with such a cost \<open>c\<close>, and its successor on the path is
  among the neighbors \<open>rem\<close> still to be processed.
\<close>

definition good :: "search_state \<Rightarrow> cell list \<Rightarrow> nat \<Rightarrow> bool" where
  "good st ps i = (\<exists>c. cost_so_far st (ps ! i) = Some c \<and> c \<le> path_cost (take (Suc i) ps))"

definition queued :: "search_state \<Rightarrow> cell list \<Rightarrow> nat \<Rightarrow> bool" where
  "queued st ps i =
     (\<exists>e \<in> set (open_set st). snd (snd e) = ps ! i \<and> fst (snd e) \<le> path_cost (take (Suc i) ps))"

definition pending :: "cell \<Rightarrow> real \<Rightarrow> cell list \<Rightarrow> cell list \<Rightarrow> nat \<Rightarrow> bool" where
  "pending cur c rem ps i =
     (ps ! i = cur \<and> c \<le> path_cost (take (Suc i) ps) \<and> ps ! Suc i \<in> set rem)"

text \<open>
  Between iterations every good position is queued or has a good successor; inside the
  neighbor loop it may also be pending. In the frontier, a priority lies between the cost
  of the entry and that cost plus the heuristic.
\<close>

definition frontier_inv :: "cell list \<Rightarrow> search_state \<Rightarrow> bool" where
  "frontier_inv ps st =
     (\<forall>i < length ps. good st ps i \<longrightarrow>
        queued st ps i \<or> (Suc i < length ps \<and> good st ps (Suc i)))"

definition relax_frontier_inv ::
    "cell list \<Rightarrow> cell \<Rightarrow> real \<Rightarrow> cell list \<Rightarrow> search_state \<Rightarrow> bool" where
  "relax_frontier_inv ps cur c rem st =
     (\<forall>i < length ps. good st ps i \<longrightarrow>
        queued st ps i \<or> (Suc i < length ps \<and> (good st ps (Suc i) \<or> pending cur c rem ps i)))"

definition prio_inv :: "cell \<Rightarrow> search_state \<Rightarrow> bool" where
  "prio_inv goal st =
     (\<forall>e \<in> set (open_set st).
        fst (snd e) \<le> fst e \<and> fst e \<le> fst (snd e) + heuristic (snd (snd e)) goal)"

subsection \<open>Executions with an arbitrary arrangement of the heap\<close>

text \<open>
  What \<^verbatim>\<open>heapq\<close> guarantees of a pop, whatever the arrangement of the list that holds the
  heap: the entry returned is in the heap and least, and the entries left are the others.
\<close>

definition pops :: "entry list \<Rightarrow> entry \<Rightarrow> entry list \<Rightarrow> bool" where
  "pops h e rest = (e \<in> set h \<and> (\<forall>x \<in> set h. e \<le> x) \<and> mset rest = mset h - {#e#})"

text \<open>
  The executions of the search loop when each pop may leave the remaining entries in any
  arrangement: \<open>search_run goal g st r\<close> holds when the loop started in \<open>st\<close> can end with
  outcome \<open>r\<close>.
\<close>

inductive search_run :: "cell \<Rightarrow> grid \<Rightarrow> search_state \<Rightarrow> error + search_state \<Rightarrow> bool"
  for goal :: cell and g :: grid where
  exhausted: "open_set st = [] \<Longrightarrow> search_run goal g st (Inr st)"
| found: "pops (open_set st) (f, c, goal) rest \<Longrightarrow>
          search_run goal g st (Inr (st\<lparr>open_set := rest\<rparr>))"
| raised: "pops (open_set st) (f, c, n) rest \<Longrightarrow> n \<noteq> goal \<Longrightarrow> get_neighbors n g = Inl e \<Longrightarrow>
           search_run goal g st (Inl e)"
| expand: "pops (open_set st) (f, c, n) rest \<Longrightarrow> n \<noteq> goal \<Longrightarrow> get_neighbors n g = Inr ns \<Longrightarrow>
           search_run goal g (foldl (relax goal n c) (st\<lparr>open_set := rest\<rparr>) ns) r \<Longrightarrow>
           search_run goal g st r"




section \<open>Properties\<close>

subsection \<open>Reading the grid\<close>

lemma getitem_in_bounds:
  "in_bounds g (i, j) \<Longrightarrow> getitem g i j = Inr (occupancy g (i, j))"
  by (simp add: getitem_def in_bounds_def occupancy_def)

lemma snd_bind_t:
  "snd (bind_t m f) = (case snd m of Inl e \<Rightarrow> Inl e | Inr x \<Rightarrow> snd (f x))"
  by (cases m) (auto simp: bind_t_def split: sum.splits prod.splits)

lemma fst_bind_t:
  "fst (bind_t m f) = (case snd m of Inl e \<Rightarrow> fst m | Inr x \<Rightarrow> fst m @ fst (f x))"
  by (cases m) (auto simp: bind_t_def split: sum.splits prod.splits)

subsection \<open>\<^verbatim>\<open>get_neighbors\<close> on a cell of the grid\<close>

lemma visit_in_bounds:
  assumes "in_bounds g node"
  shows "snd (visit g node dx dy acc) =
           Inr (acc @ (if legal_move g node (dx, dy) then [(fst node + dx, snd node + dy)] else []))"
proof -
  obtain x y where n: "node = (x, y)" by (cases node)
  have y: "0 \<le> y \<and> y < int (shape1 g)" and x: "0 \<le> x \<and> x < int (shape0 g)"
    using assms by (simp_all add: n in_bounds_def)
  show ?thesis
  proof (cases "in_bounds g (x + dx, y + dy)")
    case False
    then show ?thesis
      by (auto simp: visit_def n Let_def legal_move_def ret_def in_bounds_def)
  next
    case True
    then have a: "in_bounds g (x + dx, y)" and b: "in_bounds g (x, y + dy)"
      using x y by (simp_all add: in_bounds_def)
    show ?thesis using True
      by (simp add: visit_def n Let_def legal_move_def ret_def snd_bind_t read_grid_def
            getitem_in_bounds a b)
         (auto simp: in_bounds_def)
  qed
qed

lemma for_each_append:
  assumes "\<And>x acc. x \<in> set xs \<Longrightarrow> snd (body x acc) = Inr (acc @ F x)"
  shows "snd (for_each xs body acc) = Inr (acc @ concat (map F xs))"
  using assms
  by (induction xs arbitrary: acc) (simp_all add: ret_def snd_bind_t)

lemma get_neighbors_in_bounds:
  assumes "in_bounds g node"
  shows "get_neighbors node g =
           Inr (map (\<lambda>d. (fst node + fst d, snd node + snd d)) (filter (legal_move g node) offsets))"
proof -
  let ?F = "\<lambda>dx dy. if legal_move g node (dx, dy) then [(fst node + dx, snd node + dy)] else []"
  have inner: "snd (for_each [-1, 0, 1] (\<lambda>dy. visit g node dx dy) acc)
                 = Inr (acc @ concat (map (?F dx) [-1, 0, 1]))" for dx acc
    by (rule for_each_append) (rule visit_in_bounds[OF assms])
  have "snd (for_each [-1, 0, 1] (\<lambda>dx. for_each [-1, 0, 1] (\<lambda>dy. visit g node dx dy)) [])
          = Inr ([] @ concat (map (\<lambda>dx. concat (map (?F dx) [-1, 0, 1])) [-1, 0, 1]))"
    by (rule for_each_append) (rule inner)
  then show ?thesis
    by (simp add: get_neighbors_def get_neighbors_traced_def offsets_def)
qed

lemma visit_cases:
  assumes "snd (visit g node dx dy acc) = Inr acc'"
  shows "acc' = acc \<or>
         (acc' = acc @ [(fst node + dx, snd node + dy)] \<and> (dx, dy) \<noteq> (0, 0) \<and>
          in_bounds g (fst node + dx, snd node + dy) \<and>
          occupancy g (fst node + dx, snd node + dy) = 0)"
proof (cases "in_bounds g (fst node + dx, snd node + dy)")
  case False
  then show ?thesis using assms
    by (auto simp: visit_def Let_def ret_def in_bounds_def split: if_splits)
next
  case True
  then show ?thesis using assms
    by (auto simp: visit_def Let_def ret_def snd_bind_t read_grid_def getitem_in_bounds
             split: if_splits sum.splits)
qed

lemma for_each_inv:
  assumes "\<And>x acc acc'. x \<in> set xs \<Longrightarrow> P acc \<Longrightarrow> snd (body x acc) = Inr acc' \<Longrightarrow> P acc'"
    and "P acc" and "snd (for_each xs body acc) = Inr acc'"
  shows "P acc'"
  using assms
proof (induction xs arbitrary: acc)
  case Nil
  then show ?case by (simp add: ret_def)
next
  case (Cons x xs)
  from Cons.prems(3) obtain mid where m: "snd (body x acc) = Inr mid"
    and r: "snd (for_each xs body mid) = Inr acc'"
    by (auto simp: snd_bind_t split: sum.splits)
  have mid: "P mid" using Cons.prems(1)[OF _ Cons.prems(2) m] by simp
  show ?case
  proof (rule Cons.IH[OF _ mid r])
    fix y a a' assume "y \<in> set xs" "P a" "snd (body y a) = Inr a'"
    then show "P a'" using Cons.prems(1)[of y a a'] by simp
  qed
qed

lemma adjacent_offset:
  assumes "dx \<in> {-1, 0, 1}" "dy \<in> {-1, 0, 1}" "(dx, dy) \<noteq> (0, 0)"
  shows "adjacent node (fst node + dx, snd node + dy)"
proof -
  have "\<bar>dx\<bar> \<le> 1" "\<bar>dy\<bar> \<le> 1" "dx \<noteq> 0 \<or> dy \<noteq> 0" using assms by auto
  then show ?thesis by (cases node) (simp add: adjacent_def)
qed

lemma visit_sound:
  assumes "snd (visit g node dx dy acc) = Inr acc'"
    and "dx \<in> {-1, 0, 1}" "dy \<in> {-1, 0, 1}"
    and "\<forall>n \<in> set acc. in_bounds g n \<and> occupancy g n = 0 \<and> adjacent node n"
  shows "\<forall>n \<in> set acc'. in_bounds g n \<and> occupancy g n = 0 \<and> adjacent node n"
proof -
  from visit_cases[OF assms(1)] show ?thesis
  proof
    assume "acc' = acc" then show ?thesis using assms(4) by simp
  next
    assume a: "acc' = acc @ [(fst node + dx, snd node + dy)] \<and> (dx, dy) \<noteq> (0, 0) \<and>
          in_bounds g (fst node + dx, snd node + dy) \<and>
          occupancy g (fst node + dx, snd node + dy) = 0"
    then have "adjacent node (fst node + dx, snd node + dy)"
      using adjacent_offset[OF assms(2,3)] by blast
    with a assms(4) show ?thesis by simp
  qed
qed

lemma get_neighbors_sound:
  assumes "get_neighbors node g = Inr ns" and "n \<in> set ns"
  shows "in_bounds g n \<and> occupancy g n = 0 \<and> adjacent node n"
proof -
  let ?P = "\<lambda>acc. \<forall>n \<in> set acc. in_bounds g n \<and> occupancy g n = 0 \<and> adjacent node n"
  have inner: "?P acc'" if dx: "dx \<in> set [-1, 0, 1]" and acc: "?P acc"
    and r: "snd (for_each [-1, 0, 1] (\<lambda>dy. visit g node dx dy) acc) = Inr acc'" for dx acc acc'
  proof (rule for_each_inv[where P = ?P, OF _ acc r])
    fix dy a a'
    assume "dy \<in> set [-1, 0, 1]" "?P a" "snd (visit g node dx dy a) = Inr a'"
    then show "?P a'" using visit_sound[of g node dx dy a a'] dx by simp
  qed
  have r: "snd (for_each [-1, 0, 1] (\<lambda>dx. for_each [-1, 0, 1] (\<lambda>dy. visit g node dx dy)) []) = Inr ns"
    using assms(1) by (simp only: get_neighbors_def get_neighbors_traced_def)
  have "?P ns"
  proof (rule for_each_inv[where P = ?P, OF _ _ r])
    show "?P []" by simp
  next
    fix dx a a'
    assume "dx \<in> set [-1, 0, 1]" "?P a" "snd (for_each [-1, 0, 1] (\<lambda>dy. visit g node dx dy) a) = Inr a'"
    then show "?P a'" by (rule inner)
  qed
  then show ?thesis using assms(2) by blast
qed

lemma for_each_reads:
  assumes "\<And>x acc. x \<in> set xs \<Longrightarrow> set (fst (body x acc)) \<subseteq> S"
  shows "set (fst (for_each xs body acc)) \<subseteq> S"
  using assms
  by (induction xs arbitrary: acc) (auto simp: ret_def fst_bind_t split: sum.splits)

lemma reads_bind_read:
  assumes "(i, j) \<in> S" and "\<And>v. set (fst (f v)) \<subseteq> S"
  shows "set (fst (bind_t (read_grid g i j) f)) \<subseteq> S"
  using assms by (simp add: fst_bind_t read_grid_def split: sum.splits)

lemma reads_ret: "set (fst (ret x)) \<subseteq> S"
  by (simp add: ret_def)

lemma reads_if:
  "set (fst a) \<subseteq> S \<Longrightarrow> set (fst b) \<subseteq> S \<Longrightarrow> set (fst (if c then a else b)) \<subseteq> S"
  by simp

lemma visit_reads:
  assumes "in_bounds g node"
  shows "set (fst (visit g node dx dy acc)) \<subseteq> {c. in_bounds g c}"
proof (cases "in_bounds g (fst node + dx, snd node + dy)")
  case False
  then have nb: "\<not> (0 \<le> fst node + dx \<and> fst node + dx < int (shape0 g) \<and>
           0 \<le> snd node + dy \<and> snd node + dy < int (shape1 g))"
    by (simp add: in_bounds_def)
  show ?thesis
    unfolding visit_def Let_def if_not_P[OF nb]
    by (intro reads_if reads_ret)
next
  case True
  then have b: "0 \<le> fst node + dx \<and> fst node + dx < int (shape0 g) \<and>
           0 \<le> snd node + dy \<and> snd node + dy < int (shape1 g)"
    by (simp add: in_bounds_def)
  have m: "(fst node + dx, snd node) \<in> {c. in_bounds g c}"
    "(fst node, snd node + dy) \<in> {c. in_bounds g c}"
    "(fst node + dx, snd node + dy) \<in> {c. in_bounds g c}"
    using True assms by (simp_all add: in_bounds_def)
  show ?thesis
    unfolding visit_def Let_def if_P[OF b]
    by (intro reads_if reads_ret reads_bind_read m)
qed

lemma get_neighbors_reads_in_bounds:
  assumes "in_bounds g node"
  shows "set (get_neighbors_reads node g) \<subseteq> {c. in_bounds g c}"
  unfolding get_neighbors_reads_def get_neighbors_traced_def
  by (intro for_each_reads visit_reads assms)

subsection \<open>Claims about \<^verbatim>\<open>get_neighbors\<close>\<close>

text \<open>
  C2. For a cell inside the grid, \<^verbatim>\<open>get_neighbors\<close> raises nothing and returns exactly the
  cells reached by the offsets that the adjacency rule of the specification accepts
  (\<^const>\<open>legal_move\<close>: not the zero offset, destination inside the grid with occupancy 0,
  and for a diagonal offset both pass-through cells different from 1), each once, in the
  order of enumeration of the offsets.
\<close>

theorem get_neighbors_exact:
  assumes "in_bounds g node"
  shows "get_neighbors node g =
           Inr (map (\<lambda>d. (fst node + fst d, snd node + snd d)) (filter (legal_move g node) offsets))"
  using assms by (rule get_neighbors_in_bounds)

theorem get_neighbors_exact_witness:
  "in_bounds wall_3x3 (0, 0) \<and> get_neighbors (0, 0) wall_3x3 = Inr [(1, 0)]"
  using get_neighbors_exact[of wall_3x3 "(0, 0)"]
  by (simp add: in_bounds_def wall_3x3_def legal_move_def offsets_def occupancy_def)

text \<open>
  C10. For a cell inside the grid, every index pair that \<^verbatim>\<open>get_neighbors\<close> reads from the
  grid is non-negative and below the grid's dimensions, the two pass-through reads of a
  diagonal offset included; so no read counts from the end of an axis, and none raises.
\<close>

theorem get_neighbors_reads_in_range:
  assumes "in_bounds g node"
  shows "(\<forall>(i, j) \<in> set (get_neighbors_reads node g).
            0 \<le> i \<and> i < int (shape0 g) \<and> 0 \<le> j \<and> j < int (shape1 g))
         \<and> (\<exists>ns. get_neighbors node g = Inr ns)"
  using get_neighbors_reads_in_bounds[OF assms] get_neighbors_in_bounds[OF assms]
  by (auto simp: in_bounds_def)

theorem get_neighbors_reads_in_range_witness:
  "in_bounds wall_3x3 (1, 1) \<and>
   list_all (\<lambda>(i, j). 0 \<le> i \<and> i < 3 \<and> 0 \<le> j \<and> j < 3) (get_neighbors_reads (1, 1) wall_3x3) \<and>
   (\<exists>ns. get_neighbors (1, 1) wall_3x3 = Inr ns)"
  using get_neighbors_reads_in_range[of wall_3x3 "(1, 1)"]
  by (simp add: in_bounds_def wall_3x3_def list_all_iff)

subsection \<open>Start equal to goal\<close>

lemma heappop_single: "heappop [e] = Inr (e, [])"
  by (simp add: heappop_def)

lemma astar_same_cell: "astar c c g = Some (Inr None)"
  by (simp add: astar_def initial_state_def heappush_def search.simps[of c g] heappop_single
        split: prod.splits)

text \<open>
  C3. On the grid of one free cell, the call with start and goal both at that cell
  returns \<^verbatim>\<open>None\<close>, the no-path signal, and not the one-cell path: the first entry popped
  is the goal, the loop stops, and the goal has no predecessor.
\<close>

theorem astar_start_is_goal: "astar (0, 0) (0, 0) free_1x1 = Some (Inr None)"
  by (rule astar_same_cell)

subsection \<open>Queries that the specification calls invalid\<close>



subsection \<open>The heuristic\<close>

lemma sqrt2_gt_1: "1 < sqrt 2"
  by simp

lemma sqrt2_lt_2: "sqrt 2 < 2"
proof -
  have "sqrt 2 < sqrt 4" by (simp only: real_sqrt_less_iff)
  then show ?thesis by simp
qed

lemma step_cost_adjacent:
  assumes "adjacent p q"
  shows "step_cost p q = (if fst p \<noteq> fst q \<and> snd p \<noteq> snd q then sqrt 2 else 1)"
proof -
  define ex where "ex = fst q - fst p"
  define ey where "ey = snd q - snd p"
  have "ex \<in> {-1, 0, 1}" "ey \<in> {-1, 0, 1}" "ex \<noteq> 0 \<or> ey \<noteq> 0"
    using assms by (auto simp: adjacent_def ex_def ey_def prod_eq_iff)
  then have "ex\<^sup>2 + ey\<^sup>2 = (if ex \<noteq> 0 \<and> ey \<noteq> 0 then 2 else 1)"
    by auto
  then show ?thesis
    by (auto simp: step_cost_def ex_def ey_def)
qed

lemma step_cost_pos: "adjacent p q \<Longrightarrow> 1 \<le> step_cost p q"
  using sqrt2_gt_1 by (simp add: step_cost_adjacent)

lemma octile_step_gen:
  fixes e1 e2 m :: int and c s :: real
  assumes "1 \<le> s" "s \<le> 2"
    and "e1 \<in> {-1, 0, 1}" "e2 \<in> {-1, 0, 1}" "m \<in> {-1, 0, 1}"
    and "min e1 e2 \<le> m" "m \<le> max e1 e2"
    and "c = (if e1 \<noteq> 0 \<and> e2 \<noteq> 0 then s else 1) \<or> c = s"
  shows "0 \<le> c + real_of_int e1 + real_of_int e2 + (s - 2) * real_of_int m"
  using assms by auto

lemma octile_step:
  fixes e1 e2 m :: int and c :: real
  assumes "\<bar>e1\<bar> \<le> 1" "\<bar>e2\<bar> \<le> 1" "min e1 e2 \<le> m" "m \<le> max e1 e2"
    and "c = (if e1 \<noteq> 0 \<and> e2 \<noteq> 0 then sqrt 2 else 1) \<or> c = sqrt 2"
  shows "0 \<le> c + real_of_int e1 + real_of_int e2 + (sqrt 2 - 2) * real_of_int m"
proof -
  have e: "e1 \<in> {-1, 0, 1}" "e2 \<in> {-1, 0, 1}" using assms(1,2) by auto
  then have m: "m \<in> {-1, 0, 1}" using assms(3,4) by auto
  have s: "1 \<le> sqrt 2" "sqrt 2 \<le> 2" using sqrt2_lt_2 by simp_all
  show ?thesis
    by (rule octile_step_gen[OF s e m assms(3,4,5)])
qed

lemma heuristic_consistent:
  assumes "adjacent p q"
  shows "heuristic p b \<le> step_cost p q + heuristic q b"
proof -
  define a where "a = \<bar>fst p - fst b\<bar>"
  define a' where "a' = \<bar>fst q - fst b\<bar>"
  define d where "d = \<bar>snd p - snd b\<bar>"
  define d' where "d' = \<bar>snd q - snd b\<bar>"
  define e1 where "e1 = a' - a"
  define e2 where "e2 = d' - d"
  define m where "m = min a' d' - min a d"
  have adj: "\<bar>fst q - fst p\<bar> \<le> 1" "\<bar>snd q - snd p\<bar> \<le> 1"
    using assms by (simp_all add: adjacent_def)
  have b1: "\<bar>e1\<bar> \<le> 1" "\<bar>e2\<bar> \<le> 1"
    using adj by (simp_all add: e1_def e2_def a_def a'_def d_def d'_def)
  have b2: "min e1 e2 \<le> m" "m \<le> max e1 e2"
    by (simp_all add: m_def e1_def e2_def min_def max_def)
  have z: "fst p = fst q \<Longrightarrow> e1 = 0" "snd p = snd q \<Longrightarrow> e2 = 0"
    by (simp_all add: e1_def e2_def a_def a'_def d_def d'_def)
  have c: "step_cost p q = (if e1 \<noteq> 0 \<and> e2 \<noteq> 0 then sqrt 2 else 1) \<or> step_cost p q = sqrt 2"
    using z by (auto simp: step_cost_adjacent[OF assms])
  have "0 \<le> step_cost p q + real_of_int e1 + real_of_int e2 + (sqrt 2 - 2) * real_of_int m"
    by (rule octile_step[OF b1 b2 c])
  then show ?thesis
    by (simp add: heuristic_def Let_def a_def[symmetric] a'_def[symmetric] d_def[symmetric]
          d'_def[symmetric] e1_def e2_def m_def algebra_simps)
qed

lemma heuristic_same: "heuristic b b = 0"
  by (simp add: heuristic_def)

lemma heuristic_nonneg: "0 \<le> heuristic a b"
proof -
  define x where "x = \<bar>fst a - fst b\<bar>"
  define y where "y = \<bar>snd a - snd b\<bar>"
  have "0 \<le> x" "0 \<le> y" by (simp_all add: x_def y_def)
  have "(2 - sqrt 2) * real_of_int (min x y) \<le> 2 * real_of_int (min x y)"
    using \<open>0 \<le> x\<close> \<open>0 \<le> y\<close> by (intro mult_right_mono) simp_all
  also have "\<dots> \<le> real_of_int x + real_of_int y" by (simp add: min_def)
  finally show ?thesis
    by (simp add: heuristic_def Let_def x_def[symmetric] y_def[symmetric] algebra_simps)
qed

lemma is_neighbor_iff: "is_neighbor g p q \<longleftrightarrow> (\<exists>ns. get_neighbors p g = Inr ns \<and> q \<in> set ns)"
  by (auto simp: is_neighbor_def split: sum.splits)

lemma is_neighbor_sound:
  "is_neighbor g p q \<Longrightarrow> in_bounds g q \<and> occupancy g q = 0 \<and> adjacent p q"
proof -
  assume "is_neighbor g p q"
  then obtain ns where "get_neighbors p g = Inr ns" "q \<in> set ns"
    by (auto simp: is_neighbor_iff)
  then show ?thesis by (rule get_neighbors_sound)
qed

lemma heuristic_path:
  assumes "legal_path g ps" "ps \<noteq> []"
  shows "heuristic (hd ps) b \<le> path_cost ps + heuristic (last ps) b"
  using assms
proof (induction g ps rule: legal_path.induct)
  case (3 g p q ps)
  have n: "is_neighbor g p q" and l: "legal_path g (q # ps)" using "3.prems"(1) by simp_all
  have "adjacent p q" using is_neighbor_sound[OF n] by simp
  then have "heuristic p b \<le> step_cost p q + heuristic q b"
    by (rule heuristic_consistent)
  moreover have "heuristic (hd (q # ps)) b \<le> path_cost (q # ps) + heuristic (last (q # ps)) b"
    by (rule "3.IH"[OF l]) simp
  ultimately show ?case by simp
qed simp_all




subsection \<open>Costs are well ordered\<close>

lemma finite_below: "finite {(a :: nat, b :: nat). real a + real b * sqrt 2 < c}"
proof -
  have "{(a :: nat, b :: nat). real a + real b * sqrt 2 < c}
          \<subseteq> {a. real a < c} \<times> {b. real b < c}"
  proof
    fix x :: "nat \<times> nat"
    assume "x \<in> {(a :: nat, b :: nat). real a + real b * sqrt 2 < c}"
    then obtain a b where x: "x = (a, b)" and h: "real a + real b * sqrt 2 < c"
      by auto
    have "real b * 1 \<le> real b * sqrt 2"
      by (intro mult_left_mono) simp_all
    moreover have "0 \<le> real b * sqrt 2" by simp
    ultimately show "x \<in> {a. real a < c} \<times> {b. real b < c}"
      using h x by simp
  qed
  moreover have "finite {a :: nat. real a < c}"
  proof (rule finite_subset)
    show "{a :: nat. real a < c} \<subseteq> {..nat \<lceil>c\<rceil>}"
      by (auto simp: le_nat_iff) linarith
    show "finite {..nat \<lceil>c\<rceil>}" by simp
  qed
  ultimately show ?thesis
    by (meson finite_SigmaI finite_subset)
qed

lemma rank_mono:
  assumes "x \<in> costs" "x < y"
  shows "rank x < rank y"
proof -
  obtain a b :: nat where x: "x = real a + real b * sqrt 2"
    using assms(1) by (auto simp: costs_def)
  have "{(a :: nat, b :: nat). real a + real b * sqrt 2 < x}
          \<subset> {(a :: nat, b :: nat). real a + real b * sqrt 2 < y}"
  proof
    show "{(a :: nat, b :: nat). real a + real b * sqrt 2 < x}
            \<subseteq> {(a :: nat, b :: nat). real a + real b * sqrt 2 < y}"
      using assms(2) by auto
    have "(a, b) \<in> {(a :: nat, b :: nat). real a + real b * sqrt 2 < y}"
      using assms(2) x by simp
    moreover have "(a, b) \<notin> {(a :: nat, b :: nat). real a + real b * sqrt 2 < x}"
      using x by simp
    ultimately show "{(a :: nat, b :: nat). real a + real b * sqrt 2 < x}
            \<noteq> {(a :: nat, b :: nat). real a + real b * sqrt 2 < y}"
      by blast
  qed
  then show ?thesis
    unfolding rank_def by (intro psubset_card_mono finite_below)
qed

lemma costs_nonneg: "c \<in> costs \<Longrightarrow> 0 \<le> c"
  by (auto simp: costs_def)

lemma costs_zero: "0 \<in> costs"
proof -
  have "(0 :: real) = real 0 + real 0 * sqrt 2" by simp
  then show ?thesis unfolding costs_def by blast
qed

lemma costs_add_step:
  assumes "c \<in> costs" "adjacent p q"
  shows "c + step_cost p q \<in> costs"
proof -
  obtain a b :: nat where c: "c = real a + real b * sqrt 2"
    using assms(1) by (auto simp: costs_def)
  show ?thesis
  proof (cases "fst p \<noteq> fst q \<and> snd p \<noteq> snd q")
    case True
    then have "c + step_cost p q = real a + real (Suc b) * sqrt 2"
      by (simp add: step_cost_adjacent[OF assms(2)] c algebra_simps)
    then show ?thesis unfolding costs_def by blast
  next
    case False
    then have "c + step_cost p q = real (Suc a) + real b * sqrt 2"
      by (simp add: step_cost_adjacent[OF assms(2)] c algebra_simps)
    then show ?thesis unfolding costs_def by blast
  qed
qed

subsection \<open>The frontier\<close>

lemma heappop_props:
  assumes "heappop h = Inr (e, rest)"
  shows "h \<noteq> []" "e \<in> set h" "\<forall>x \<in> set h. e \<le> x" "set rest \<subseteq> set h"
    "set h \<subseteq> insert e (set rest)" "Suc (length rest) = length h"
proof -
  show ne: "h \<noteq> []" using assms by (auto simp: heappop_def split: if_splits)
  have e: "e = Min (set h)" and r: "rest = remove1 e h"
    using assms by (auto simp: heappop_def split: if_splits)
  show in_h: "e \<in> set h" using ne by (simp add: e)
  show "\<forall>x \<in> set h. e \<le> x" by (simp add: e)
  show "set rest \<subseteq> set h" by (simp add: r set_remove1_subset)
  show "set h \<subseteq> insert e (set rest)"
  proof
    fix x assume "x \<in> set h"
    then show "x \<in> insert e (set rest)"
      by (cases "x = e") (simp_all add: r)
  qed
  show "Suc (length rest) = length h"
    using in_h ne by (simp add: r length_remove1)
qed

lemma heappop_nonempty:
  assumes "h \<noteq> []"
  shows "\<exists>e rest. heappop h = Inr (e, rest)"
proof -
  have "heappop h = Inr (Min (set h), remove1 (Min (set h)) h)"
    using assms by (simp add: heappop_def)
  then show ?thesis by blast
qed

subsection \<open>The body of the neighbor loop\<close>

lemma relax_eq:
  "relax goal cur c st nb =
     (if improves (c + step_cost cur nb) st nb then recorded goal cur (c + step_cost cur nb) st nb
      else st)"
  by (simp add: relax_def Let_def improves_def recorded_def step_cost_def heappush_def)

lemma recorded_simps:
  "cost_so_far (recorded goal cur nc st nb) = (cost_so_far st)(nb \<mapsto> nc)"
  "came_from (recorded goal cur nc st nb) = (came_from st)(nb \<mapsto> cur)"
  "open_set (recorded goal cur nc st nb) = (nc + heuristic nb goal, nc, nb) # open_set st"
  by (simp_all add: recorded_def)

lemma relax_cost_le:
  assumes "cost_so_far st n = Some c0"
  shows "\<exists>c1. cost_so_far (relax goal cur c st nb) n = Some c1 \<and> c1 \<le> c0"
  using assms by (auto simp: relax_eq recorded_simps improves_def)

lemma relax_cost_neighbor:
  "\<exists>c1. cost_so_far (relax goal cur c st nb) nb = Some c1 \<and> c1 \<le> c + step_cost cur nb"
  by (auto simp: relax_eq recorded_simps improves_def split: option.splits)

lemma relax_open_set: "set (open_set st) \<subseteq> set (open_set (relax goal cur c st nb))"
  by (auto simp: relax_eq recorded_simps)

subsection \<open>The invariant is kept by the neighbor loop\<close>

lemma recorded_inv:
  assumes pre: "relax_pre start g cur c st"
    and nb: "is_neighbor g cur nb"
    and imp: "improves (c + step_cost cur nb) st nb"
  shows "search_inv start g (recorded goal cur (c + step_cost cur nb) st nb)"
proof -
  let ?nc = "c + step_cost cur nb"
  let ?st = "recorded goal cur ?nc st nb"
  have inv: "inv_start start st" "inv_dom start st" "inv_costs start g st" "inv_heap st"
    "inv_pred g st"
    using pre by (simp_all add: relax_pre_def search_inv_def)
  have c: "c \<in> costs" using pre by (simp add: relax_pre_def)
  obtain c' where c': "cost_so_far st cur = Some c'" "c' \<le> c"
    using pre by (auto simp: relax_pre_def)
  have adj: "adjacent cur nb" and inb: "in_bounds g nb"
    using is_neighbor_sound[OF nb] by simp_all
  have ne: "nb \<noteq> cur" using adj by (auto simp: adjacent_def)
  have nc: "?nc \<in> costs" by (rule costs_add_step[OF c adj])
  have pos: "c < ?nc" using step_cost_pos[OF adj] by simp
  have ns: "nb \<noteq> start"
  proof
    assume "nb = start"
    then have "?nc < 0" using imp inv(1) by (simp add: improves_def inv_start_def)
    then show False using costs_nonneg[OF c] pos by simp
  qed
  have old: "?nc < c0" if "cost_so_far st nb = Some c0" for c0
    using imp that by (simp add: improves_def)
  have 1: "inv_start start ?st"
    using inv(1) ns by (simp add: inv_start_def recorded_simps)
  have 2: "inv_dom start ?st"
    using inv(2) by (simp add: inv_dom_def recorded_simps)
  have 3: "inv_costs start g ?st"
    using inv(3) nc inb by (simp add: inv_costs_def recorded_simps)
  have 4: "inv_heap ?st"
    unfolding inv_heap_def recorded_simps
  proof
    fix e assume "e \<in> set ((?nc + heuristic nb goal, ?nc, nb) # open_set st)"
    then consider "e = (?nc + heuristic nb goal, ?nc, nb)" | "e \<in> set (open_set st)" by auto
    then show "fst (snd e) \<in> costs \<and>
        (\<exists>c'. ((cost_so_far st)(nb \<mapsto> ?nc)) (snd (snd e)) = Some c' \<and> c' \<le> fst (snd e))"
    proof cases
      case 1
      then show ?thesis using nc by simp
    next
      case 2
      then obtain c0 where e: "fst (snd e) \<in> costs" "cost_so_far st (snd (snd e)) = Some c0"
        "c0 \<le> fst (snd e)"
        using inv(4) by (auto simp: inv_heap_def)
      show ?thesis
      proof (cases "snd (snd e) = nb")
        case True
        then show ?thesis using e old[of c0] by simp
      next
        case False
        then show ?thesis using e by simp
      qed
    qed
  qed
  have 5: "inv_pred g ?st"
    unfolding inv_pred_def recorded_simps
  proof (intro allI impI)
    fix n p assume h: "((came_from st)(nb \<mapsto> cur)) n = Some p"
    show "is_neighbor g p n \<and>
          (\<exists>cn cp. ((cost_so_far st)(nb \<mapsto> ?nc)) n = Some cn \<and>
                   ((cost_so_far st)(nb \<mapsto> ?nc)) p = Some cp \<and> cp + step_cost p n \<le> cn)"
    proof (cases "n = nb")
      case True
      then have "p = cur" using h by simp
      then show ?thesis using True nb ne c' by simp
    next
      case False
      then have "came_from st n = Some p" using h by simp
      then obtain cn cp where o: "is_neighbor g p n" "cost_so_far st n = Some cn"
        "cost_so_far st p = Some cp" "cp + step_cost p n \<le> cn"
        using inv(5) unfolding inv_pred_def by blast
      show ?thesis
      proof (cases "p = nb")
        case True
        then show ?thesis using o False old[of cp] by simp
      next
        case False
        then show ?thesis using o \<open>n \<noteq> nb\<close> by simp
      qed
    qed
  qed
  show ?thesis using 1 2 3 4 5 by (simp add: search_inv_def)
qed

lemma relax_pre_step:
  assumes "relax_pre start g cur c st" "is_neighbor g cur nb"
  shows "relax_pre start g cur c (relax goal cur c st nb)"
proof -
  have "search_inv start g (relax goal cur c st nb)"
    using recorded_inv[OF assms] assms(1) by (simp add: relax_eq relax_pre_def)
  moreover obtain c' where "cost_so_far st cur = Some c'" "c' \<le> c"
    using assms(1) by (auto simp: relax_pre_def)
  then have "\<exists>c1. cost_so_far (relax goal cur c st nb) cur = Some c1 \<and> c1 \<le> c"
    using relax_cost_le[of st cur c' goal cur c nb] by auto
  ultimately show ?thesis using assms(1) by (simp add: relax_pre_def)
qed

lemma relax_pre_foldl:
  assumes "relax_pre start g cur c st" "\<forall>nb \<in> set ns. is_neighbor g cur nb"
  shows "relax_pre start g cur c (foldl (relax goal cur c) st ns)"
  using assms
  by (induction ns arbitrary: st) (simp_all add: relax_pre_step)

lemma search_inv_initial: "search_inv start g (initial_state start)"
  by (simp add: search_inv_def initial_state_def heappush_def inv_start_def inv_dom_def
        inv_costs_def inv_heap_def inv_pred_def costs_zero)

lemma search_inv_pop:
  assumes "search_inv start g st" "heappop (open_set st) = Inr ((f, c, n), rest)"
  shows "relax_pre start g n c (st\<lparr>open_set := rest\<rparr>)"
proof -
  have e: "(f, c, n) \<in> set (open_set st)" and sub: "set rest \<subseteq> set (open_set st)"
    using heappop_props[OF assms(2)] by simp_all
  have "inv_heap st" using assms(1) by (simp add: search_inv_def)
  then have "c \<in> costs \<and> (\<exists>c'. cost_so_far st n = Some c' \<and> c' \<le> c)"
    using e unfolding inv_heap_def by fastforce
  moreover have "inv_heap (st\<lparr>open_set := rest\<rparr>)"
    using \<open>inv_heap st\<close> sub by (auto simp: inv_heap_def)
  ultimately show ?thesis
    using assms(1)
    by (simp add: relax_pre_def search_inv_def inv_start_def inv_dom_def inv_costs_def inv_pred_def)
qed

subsection \<open>The search loop makes progress\<close>

lemma finite_universe: "finite (universe start g)"
proof -
  have "{n. in_bounds g n} \<subseteq> {0..<int (shape0 g)} \<times> {0..<int (shape1 g)}"
    by (auto simp: in_bounds_def)
  then have "finite {n. in_bounds g n}"
    by (rule finite_subset) simp
  then show ?thesis by (simp add: universe_def)
qed

lemma wf_search_order: "wf (search_order start g)"
  unfolding search_order_def by (intro wf_inv_image wf_lex_prod wf_less_than)

lemma progress_trans:
  "progress start g st2 st1 \<Longrightarrow> progress start g st1 st0 \<Longrightarrow> progress start g st2 st0"
  by (auto simp: progress_def)

lemma progress_order: "progress start g st' st \<Longrightarrow> (st', st) \<in> search_order start g"
  by (auto simp: progress_def search_order_def)

lemma recorded_progress:
  assumes pre: "relax_pre start g cur c st"
    and nb: "is_neighbor g cur nb"
    and imp: "improves (c + step_cost cur nb) st nb"
  shows "progress start g (recorded goal cur (c + step_cost cur nb) st nb) st"
proof -
  let ?nc = "c + step_cost cur nb"
  let ?st = "recorded goal cur ?nc st nb"
  let ?U = "universe start g"
  have c: "c \<in> costs" using pre by (simp add: relax_pre_def)
  have adj: "adjacent cur nb" and inb: "in_bounds g nb"
    using is_neighbor_sound[OF nb] by simp_all
  have nc: "?nc \<in> costs" by (rule costs_add_step[OF c adj])
  have nbU: "nb \<in> ?U" using inb by (simp add: universe_def)
  show ?thesis
  proof (cases "cost_so_far st nb")
    case None
    have "{n \<in> ?U. cost_so_far ?st n = None} \<subset> {n \<in> ?U. cost_so_far st n = None}"
      using None nbU by (auto simp: recorded_simps)
    then have "unseen start g ?st < unseen start g st"
      unfolding unseen_def by (intro psubset_card_mono) (simp_all add: finite_universe)
    then show ?thesis by (simp add: progress_def)
  next
    case (Some c0)
    then have lt: "?nc < c0" using imp by (simp add: improves_def)
    have "{n \<in> ?U. cost_so_far ?st n = None} = {n \<in> ?U. cost_so_far st n = None}"
      using Some by (auto simp: recorded_simps)
    then have u: "unseen start g ?st = unseen start g st" by (simp add: unseen_def)
    let ?f = "\<lambda>s n. case cost_so_far s n of None \<Rightarrow> 0 | Some c \<Rightarrow> rank c"
    have "(\<Sum>n \<in> ?U. ?f ?st n) < (\<Sum>n \<in> ?U. ?f st n)"
    proof (rule sum_strict_mono_ex1)
      show "finite ?U" by (rule finite_universe)
      show "\<forall>n \<in> ?U. ?f ?st n \<le> ?f st n"
        using Some rank_mono[OF nc lt] by (simp add: recorded_simps)
      show "\<exists>n \<in> ?U. ?f ?st n < ?f st n"
        using Some rank_mono[OF nc lt] nbU by (intro bexI[of _ nb]) (simp_all add: recorded_simps)
    qed
    then show ?thesis using u by (simp add: progress_def total_rank_def)
  qed
qed

lemma relax_progress:
  assumes "relax_pre start g cur c st" "is_neighbor g cur nb"
  shows "relax goal cur c st nb = st \<or> progress start g (relax goal cur c st nb) st"
  using recorded_progress[OF assms] by (simp add: relax_eq)

lemma foldl_relax_progress:
  assumes "relax_pre start g cur c st" "\<forall>nb \<in> set ns. is_neighbor g cur nb"
  shows "foldl (relax goal cur c) st ns = st \<or> progress start g (foldl (relax goal cur c) st ns) st"
  using assms
proof (induction ns arbitrary: st)
  case Nil
  then show ?case by simp
next
  case (Cons nb ns)
  let ?st1 = "relax goal cur c st nb"
  have nb: "is_neighbor g cur nb" and rest: "\<forall>nb \<in> set ns. is_neighbor g cur nb"
    using Cons.prems(2) by simp_all
  have pre1: "relax_pre start g cur c ?st1" by (rule relax_pre_step[OF Cons.prems(1) nb])
  have a: "?st1 = st \<or> progress start g ?st1 st" by (rule relax_progress[OF Cons.prems(1) nb])
  have b: "foldl (relax goal cur c) ?st1 ns = ?st1 \<or> progress start g (foldl (relax goal cur c) ?st1 ns) ?st1"
    by (rule Cons.IH[OF pre1 rest])
  show ?case using a b progress_trans[of start g "foldl (relax goal cur c) ?st1 ns" ?st1 st]
    by auto
qed

lemma iteration_decreases:
  assumes inv: "search_inv start g st"
    and pop: "heappop (open_set st) = Inr ((f, c, n), rest)"
    and ns: "get_neighbors n g = Inr ns"
  shows "(foldl (relax goal n c) (st\<lparr>open_set := rest\<rparr>) ns, st) \<in> search_order start g"
proof -
  let ?st0 = "st\<lparr>open_set := rest\<rparr>"
  let ?res = "foldl (relax goal n c) ?st0 ns"
  have pre: "relax_pre start g n c ?st0" by (rule search_inv_pop[OF inv pop])
  have nbs: "\<forall>nb \<in> set ns. is_neighbor g n nb" using ns by (simp add: is_neighbor_def)
  have same: "unseen start g ?st0 = unseen start g st" "total_rank start g ?st0 = total_rank start g st"
    by (simp_all add: unseen_def total_rank_def)
  have len: "length rest < length (open_set st)"
    using heappop_props(6)[OF pop] by simp
  from foldl_relax_progress[OF pre nbs, of goal] show ?thesis
  proof
    assume "?res = ?st0"
    then show ?thesis using same len by (simp add: search_order_def)
  next
    assume "progress start g ?res ?st0"
    then have "progress start g ?res st" using same by (simp add: progress_def)
    then show ?thesis by (rule progress_order)
  qed
qed

subsection \<open>Total correctness of the search loop\<close>

text \<open>
  A proof rule for the loop: from a state that satisfies the invariant and a further
  property \<open>P\<close> kept by every iteration, the loop ends, and its outcome satisfies \<open>Q\<close>
  when \<open>Q\<close> holds at each of the three exits (frontier exhausted, goal popped, exception
  raised by \<^verbatim>\<open>get_neighbors\<close>).
\<close>

lemma search_total:
  assumes inv: "search_inv start g st" and P: "P st"
    and step: "\<And>st f c n rest ns.
        search_inv start g st \<Longrightarrow> P st \<Longrightarrow> heappop (open_set st) = Inr ((f, c, n), rest) \<Longrightarrow>
        n \<noteq> goal \<Longrightarrow> get_neighbors n g = Inr ns \<Longrightarrow>
        P (foldl (relax goal n c) (st\<lparr>open_set := rest\<rparr>) ns)"
    and empty: "\<And>st. search_inv start g st \<Longrightarrow> P st \<Longrightarrow> open_set st = [] \<Longrightarrow> Q (Inr st)"
    and found: "\<And>st f c rest.
        search_inv start g st \<Longrightarrow> P st \<Longrightarrow> heappop (open_set st) = Inr ((f, c, goal), rest) \<Longrightarrow>
        Q (Inr (st\<lparr>open_set := rest\<rparr>))"
    and raised: "\<And>st f c n rest e.
        search_inv start g st \<Longrightarrow> P st \<Longrightarrow> heappop (open_set st) = Inr ((f, c, n), rest) \<Longrightarrow>
        n \<noteq> goal \<Longrightarrow> get_neighbors n g = Inl e \<Longrightarrow> Q (Inl e)"
  shows "\<exists>r. search goal g st = Some r \<and> Q r"
  using inv P
proof (induction st rule: wf_induct_rule[OF wf_search_order[of start g]])
  case (1 st)
  show ?case
  proof (cases "open_set st = []")
    case True
    then have "search goal g st = Some (Inr st)"
      by (subst search.simps) simp
    then show ?thesis using empty[OF "1.prems" True] by simp
  next
    case False
    then obtain e rest where "heappop (open_set st) = Inr (e, rest)"
      using heappop_nonempty by blast
    then obtain f c n where pop: "heappop (open_set st) = Inr ((f, c, n), rest)"
      by (cases e) auto
    show ?thesis
    proof (cases "n = goal")
      case True
      then have "search goal g st = Some (Inr (st\<lparr>open_set := rest\<rparr>))"
        using False pop by (subst search.simps) simp
      then show ?thesis using found[OF "1.prems"] pop True by simp
    next
      case ng: False
      show ?thesis
      proof (cases "get_neighbors n g")
        case (Inl e)
        then have "search goal g st = Some (Inl e)"
          using False pop ng by (subst search.simps) simp
        then show ?thesis using raised[OF "1.prems" pop ng Inl] by simp
      next
        case (Inr ns)
        let ?st' = "foldl (relax goal n c) (st\<lparr>open_set := rest\<rparr>) ns"
        have unf: "search goal g st = search goal g ?st'"
          using False pop ng Inr by (subst search.simps) simp
        have nbs: "\<forall>nb \<in> set ns. is_neighbor g n nb" using Inr by (simp add: is_neighbor_def)
        have "relax_pre start g n c ?st'"
          by (rule relax_pre_foldl[OF search_inv_pop[OF "1.prems"(1) pop] nbs])
        then have inv': "search_inv start g ?st'" by (simp add: relax_pre_def)
        have P': "P ?st'" by (rule step[OF "1.prems" pop ng Inr])
        have "(?st', st) \<in> search_order start g"
          by (rule iteration_decreases[OF "1.prems"(1) pop Inr])
        from "1.IH"[OF this inv' P'] show ?thesis by (simp add: unf)
      qed
    qed
  qed
qed

lemma search_inv_popped:
  assumes "search_inv start g st" "heappop (open_set st) = Inr ((f, c, n), rest)"
  shows "search_inv start g (st\<lparr>open_set := rest\<rparr>)"
  using search_inv_pop[OF assms] by (simp add: relax_pre_def)


subsection \<open>The reconstruction loop\<close>

lemma legal_path_snoc:
  assumes "legal_path g xs" "xs \<noteq> []" "is_neighbor g (last xs) q"
  shows "legal_path g (xs @ [q])"
  using assms by (induction g xs rule: legal_path.induct) simp_all

lemma path_cost_snoc:
  assumes "xs \<noteq> []"
  shows "path_cost (xs @ [q]) = path_cost xs + step_cost (last xs) q"
  using assms by (induction xs rule: path_cost.induct) simp_all

text \<open>
  From a cell with a recorded cost the loop ends without exception; the cells it appends,
  followed by the start and reversed, are a legal path from the start to that cell, at
  most as expensive as the recorded cost.
\<close>

lemma reconstruct_correct:
  assumes inv: "search_inv start g st" and c: "cost_so_far st cur = Some c"
  shows "\<exists>chain. reconstruct (came_from st) start cur acc = Some (Inr (acc @ chain)) \<and>
           legal_path g (rev (chain @ [start])) \<and>
           hd (rev (chain @ [start])) = start \<and>
           last (rev (chain @ [start])) = cur \<and>
           path_cost (rev (chain @ [start])) \<le> c"
  using c
proof (induction "rank c" arbitrary: cur c acc rule: less_induct)
  case less
  have parts: "inv_start start st" "inv_dom start st" "inv_costs start g st" "inv_pred g st"
    using inv by (simp_all add: search_inv_def)
  show ?case
  proof (cases "cur = start")
    case True
    then have "reconstruct (came_from st) start cur acc = Some (Inr (acc @ []))"
      by (subst reconstruct.simps) simp
    moreover have "c \<in> costs" using parts(3) less.prems unfolding inv_costs_def by blast
    then have "0 \<le> c" by (rule costs_nonneg)
    ultimately show ?thesis using True by (intro exI[of _ "[]"]) simp
  next
    case False
    then have "(cost_so_far st cur = None) = (came_from st cur = None)"
      using parts(2) unfolding inv_dom_def by blast
    then have "came_from st cur \<noteq> None" using less.prems by simp
    then obtain p where p: "came_from st cur = Some p"
      unfolding not_None_eq by (elim exE)
    then obtain cp where cp: "is_neighbor g p cur" "cost_so_far st p = Some cp"
      "cp + step_cost p cur \<le> c"
      using parts(4) less.prems unfolding inv_pred_def by fastforce
    have "cp \<in> costs" using parts(3) cp(2) unfolding inv_costs_def by blast
    moreover have "cp < c"
      using cp(3) step_cost_pos[of p cur] is_neighbor_sound[OF cp(1)] by simp
    ultimately have "rank cp < rank c" by (rule rank_mono)
    from less.hyps[OF this cp(2), of "acc @ [cur]"]
    obtain chain where ch: "reconstruct (came_from st) start p (acc @ [cur]) = Some (Inr ((acc @ [cur]) @ chain))"
      "legal_path g (rev (chain @ [start]))" "hd (rev (chain @ [start])) = start"
      "last (rev (chain @ [start])) = p" "path_cost (rev (chain @ [start])) \<le> cp"
      by blast
    have r: "reconstruct (came_from st) start cur acc = Some (Inr (acc @ (cur # chain)))"
      using False p ch(1) by (subst reconstruct.simps) simp
    have e: "rev ((cur # chain) @ [start]) = rev (chain @ [start]) @ [cur]" by simp
    have ne: "rev (chain @ [start]) \<noteq> []" by simp
    have l: "legal_path g (rev ((cur # chain) @ [start]))"
      unfolding e using ch(2) ne cp(1) ch(4) by (intro legal_path_snoc) simp_all
    have h: "hd (rev ((cur # chain) @ [start])) = start"
      unfolding e by simp
    have la: "last (rev ((cur # chain) @ [start])) = cur"
      unfolding e by simp
    have pc: "path_cost (rev ((cur # chain) @ [start])) \<le> c"
      unfolding e path_cost_snoc[OF ne] using ch(4,5) cp(3) by simp
    show ?thesis using r l h la pc by blast
  qed
qed

subsection \<open>The outcome of \<^verbatim>\<open>astar\<close>\<close>

lemma astar_of_search:
  assumes s: "search goal g (initial_state start) = Some (Inr st)"
    and inv: "search_inv start g st"
  shows "(came_from st goal = None \<and> astar start goal g = Some (Inr None)) \<or>
         (\<exists>p c path. came_from st goal = Some p \<and> cost_so_far st goal = Some c \<and>
            astar start goal g = Some (Inr (Some path)) \<and>
            legal_path g path \<and> path \<noteq> [] \<and> hd path = start \<and> last path = goal \<and>
            path_cost path \<le> c \<and> is_neighbor g p goal)"
proof (cases "came_from st goal")
  case None
  then show ?thesis by (simp add: astar_def s)
next
  case (Some p)
  have parts: "inv_start start st" "inv_dom start st" "inv_pred g st"
    using inv by (simp_all add: search_inv_def)
  have nb: "is_neighbor g p goal" using parts(3) Some unfolding inv_pred_def by blast
  have ne: "goal \<noteq> start" using Some parts(1) by (auto simp: inv_start_def)
  then have "(cost_so_far st goal = None) = (came_from st goal = None)"
    using parts(2) unfolding inv_dom_def by blast
  then have "cost_so_far st goal \<noteq> None" using Some by simp
  then obtain c where c: "cost_so_far st goal = Some c"
    unfolding not_None_eq by (elim exE)
  from reconstruct_correct[OF inv c, of "[]"]
  obtain chain where ch: "reconstruct (came_from st) start goal [] = Some (Inr ([] @ chain))"
    "legal_path g (rev (chain @ [start]))" "hd (rev (chain @ [start])) = start"
    "last (rev (chain @ [start])) = goal" "path_cost (rev (chain @ [start])) \<le> c"
    by blast
  have "astar start goal g = Some (Inr (Some (rev (chain @ [start]))))"
    using ch(1) Some by (simp add: astar_def s)
  moreover have "rev (chain @ [start]) \<noteq> []" by simp
  ultimately show ?thesis using Some c ch(2,3,4,5) nb by blast
qed



text \<open>With the start inside the grid, no read of the grid raises.\<close>

lemma search_in_bounds:
  assumes "in_bounds g start"
  shows "\<exists>st. search goal g (initial_state start) = Some (Inr st) \<and> search_inv start g st"
proof -
  have "\<exists>r. search goal g (initial_state start) = Some r \<and>
          (\<exists>st. r = Inr st \<and> search_inv start g st)"
  proof (rule search_total[where P = "\<lambda>_. True" and start = start])
    fix st f c n rest e
    assume inv: "search_inv start g st" and pop: "heappop (open_set st) = Inr ((f, c, n), rest)"
      and raised: "get_neighbors n g = Inl e"
    have "(f, c, n) \<in> set (open_set st)" using heappop_props(2)[OF pop] .
    moreover have "inv_heap st" "inv_costs start g st" using inv by (simp_all add: search_inv_def)
    ultimately have "n = start \<or> in_bounds g n"
      unfolding inv_heap_def inv_costs_def by fastforce
    then have "in_bounds g n" using assms by blast
    then show "\<exists>st. Inl e = Inr st \<and> search_inv start g st"
      using get_neighbors_in_bounds[of g n] raised by simp
  qed (simp_all add: search_inv_initial search_inv_popped)
  then show ?thesis by blast
qed

lemma astar_in_bounds:
  assumes "in_bounds g start"
  shows "astar start goal g = Some (Inr None) \<or>
         (\<exists>path. astar start goal g = Some (Inr (Some path)) \<and> legal_path g path \<and>
            path \<noteq> [] \<and> hd path = start \<and> last path = goal \<and> start \<noteq> goal \<and>
            in_bounds g goal \<and> occupancy g goal = 0)"
proof -
  obtain st where st: "search goal g (initial_state start) = Some (Inr st)" "search_inv start g st"
    using search_in_bounds[OF assms] by blast
  have "start \<noteq> goal" if "came_from st goal = Some p" for p
    using that st(2) by (auto simp: search_inv_def inv_start_def)
  moreover have "in_bounds g goal \<and> occupancy g goal = 0" if "is_neighbor g p goal" for p
    using is_neighbor_sound[OF that] by simp
  ultimately show ?thesis using astar_of_search[OF st] by blast
qed


subsection \<open>Two runs on small grids\<close>

lemma get_neighbors_1x2_00: "get_neighbors (0, 0) free_1x2 = Inr [(0, 1)]"
  using get_neighbors_in_bounds[of free_1x2 "(0, 0)"]
  by (simp add: in_bounds_def free_1x2_def legal_move_def offsets_def occupancy_def)

lemma astar_1x2: "astar (0, 0) (0, 1) free_1x2 = Some (Inr (Some [(0, 0), (0, 1)]))"
proof -
  let ?st1 = "\<lparr>open_set = [(1, 1, (0, 1))], came_from = [(0, 1) \<mapsto> (0, 0)],
               cost_so_far = [(0, 0) \<mapsto> 0, (0, 1) \<mapsto> 1]\<rparr>"
  have r: "relax (0, 1) (0, 0) 0
             \<lparr>open_set = [], came_from = Map.empty, cost_so_far = [(0, 0) \<mapsto> 0]\<rparr> (0, 1) = ?st1"
    by (simp add: relax_def heappush_def heuristic_same)
  have s2: "search (0, 1) free_1x2 ?st1 = Some (Inr (?st1\<lparr>open_set := []\<rparr>))"
    by (subst search.simps) (simp add: heappop_single)
  have s1: "search (0, 1) free_1x2 (initial_state (0, 0)) = Some (Inr (?st1\<lparr>open_set := []\<rparr>))"
    by (subst search.simps)
       (simp add: initial_state_def heappush_def heappop_single get_neighbors_1x2_00 r s2)
  have rc: "reconstruct [(0, 1) \<mapsto> (0, 0)] (0, 0) (0, 1) [] = Some (Inr [(0, 1)])"
    by (subst reconstruct.simps, simp, subst reconstruct.simps, simp)
  show ?thesis by (simp add: astar_def s1 rc)
qed

lemma get_neighbors_1x3_00: "get_neighbors (0, 0) split_1x3 = Inr []"
  using get_neighbors_in_bounds[of split_1x3 "(0, 0)"]
  by (simp add: in_bounds_def split_1x3_def legal_move_def offsets_def occupancy_def)

lemma unreachable_1x3: "\<not> reachable split_1x3 (0, 0) (0, 2)"
proof
  assume "reachable split_1x3 (0, 0) (0, 2)"
  then obtain ps where ps: "ps \<noteq> []" "hd ps = (0, 0)" "last ps = (0, 2)" "legal_path split_1x3 ps"
    unfolding reachable_def by blast
  show False
  proof (cases ps)
    case Nil
    then show ?thesis using ps(1) by simp
  next
    case (Cons p qs)
    then have p: "p = (0, 0)" using ps(2) by simp
    show ?thesis
    proof (cases qs)
      case Nil
      then show ?thesis using Cons ps(3) p by simp
    next
      case (Cons q rs)
      then have "is_neighbor split_1x3 (0, 0) q" using ps(4) \<open>ps = p # qs\<close> p by simp
      then show ?thesis by (simp add: is_neighbor_def get_neighbors_1x3_00)
    qed
  qed
qed

subsection \<open>Claims about \<^verbatim>\<open>astar\<close>\<close>




text \<open>
  C5. When the start is inside the grid and no legal path leads from it to the goal (so
  the two differ), \<^verbatim>\<open>astar\<close> returns \<^verbatim>\<open>None\<close>: it returns normally, raising nothing, and
  the value is not a list.
\<close>

theorem astar_unreachable:
  assumes "in_bounds g start" "\<not> reachable g start goal"
  shows "astar start goal g = Some (Inr None)"
  using astar_in_bounds[OF assms(1), of goal] assms(2) unfolding reachable_def by blast

theorem astar_unreachable_witness:
  "in_bounds split_1x3 (0, 0) \<and> \<not> reachable split_1x3 (0, 0) (0, 2) \<and>
   astar (0, 0) (0, 2) split_1x3 = Some (Inr None)"
  using astar_unreachable[of split_1x3 "(0, 0)" "(0, 2)"] unreachable_1x3
  by (simp add: in_bounds_def split_1x3_def)



text \<open>
  C1 fails where start and goal coincide. On the three-by-three grid the cell \<open>(2, 2)\<close> is
  inside the grid and free, the one-cell path is a legal path from it to itself, of cost
  0, and \<^verbatim>\<open>astar\<close> returns \<^verbatim>\<open>None\<close> instead of a path.
\<close>

theorem astar_misses_trivial_path:
  "in_bounds wall_3x3 (2, 2) \<and> occupancy wall_3x3 (2, 2) = 0 \<and>
   reachable wall_3x3 (2, 2) (2, 2) \<and> path_cost [(2, 2)] = 0 \<and>
   astar (2, 2) (2, 2) wall_3x3 = Some (Inr None)"
proof -
  have "legal_path wall_3x3 [(2, 2)] \<and> [(2, 2) :: cell] \<noteq> [] \<and>
        hd [(2, 2) :: cell] = (2, 2) \<and> last [(2, 2) :: cell] = (2, 2)"
    by simp
  then have "reachable wall_3x3 (2, 2) (2, 2)"
    unfolding reachable_def by blast
  then show ?thesis
    by (simp add: astar_same_cell in_bounds_def occupancy_def wall_3x3_def)
qed



subsection \<open>Prefixes and suffixes of a path\<close>

lemma legal_path_nth:
  assumes "legal_path g ps" "Suc i < length ps"
  shows "is_neighbor g (ps ! i) (ps ! Suc i)"
  using assms
proof (induction g ps arbitrary: i rule: legal_path.induct)
  case (3 g p q ps)
  then show ?case by (cases i) simp_all
qed simp_all

lemma legal_path_drop:
  assumes "legal_path g ps"
  shows "legal_path g (drop i ps)"
  using assms
proof (induction g ps arbitrary: i rule: legal_path.induct)
  case (2 g p)
  then show ?case by (cases i) simp_all
next
  case (3 g p q ps)
  then show ?case by (cases i) simp_all
qed simp_all

lemma path_cost_append:
  assumes "xs \<noteq> []"
  shows "path_cost (xs @ ys) = path_cost xs + path_cost (last xs # ys)"
  using assms
proof (induction xs rule: path_cost.induct)
  case (2 p)
  then show ?case by (cases ys) simp_all
qed simp_all

lemma last_take_Suc: "i < length ps \<Longrightarrow> last (take (Suc i) ps) = ps ! i"
  by (simp add: take_Suc_conv_app_nth)

lemma prefix_cost_Suc:
  assumes "Suc i < length ps"
  shows "path_cost (take (Suc (Suc i)) ps)
           = path_cost (take (Suc i) ps) + step_cost (ps ! i) (ps ! Suc i)"
proof -
  have i: "i < length ps" using assms by simp
  have "take (Suc (Suc i)) ps = take (Suc i) ps @ [ps ! Suc i]"
    using assms by (rule take_Suc_conv_app_nth)
  moreover have "take (Suc i) ps \<noteq> []" using assms by (cases ps) simp_all
  ultimately show ?thesis
    using path_cost_snoc[of "take (Suc i) ps" "ps ! Suc i"] last_take_Suc[OF i] by simp
qed

lemma path_cost_split:
  assumes "i < length ps"
  shows "path_cost ps = path_cost (take (Suc i) ps) + path_cost (drop i ps)"
proof -
  have ne: "take (Suc i) ps \<noteq> []" using assms by (cases ps) simp_all
  have "path_cost (take (Suc i) ps @ drop (Suc i) ps)
          = path_cost (take (Suc i) ps) + path_cost (last (take (Suc i) ps) # drop (Suc i) ps)"
    by (rule path_cost_append[OF ne])
  then show ?thesis
    using assms by (simp add: last_take_Suc Cons_nth_drop_Suc del: take_Suc)
qed

text \<open>The heuristic at a cell of a legal path is at most the cost of the rest of the path.\<close>

lemma heuristic_suffix:
  assumes "legal_path g ps" "i < length ps"
  shows "heuristic (ps ! i) (last ps) \<le> path_cost (drop i ps)"
proof -
  have ne: "drop i ps \<noteq> []" using assms(2) by simp
  have "heuristic (hd (drop i ps)) (last ps)
          \<le> path_cost (drop i ps) + heuristic (last (drop i ps)) (last ps)"
    by (rule heuristic_path[OF legal_path_drop[OF assms(1)] ne])
  then show ?thesis
    using assms(2) by (simp add: hd_drop_conv_nth heuristic_same)
qed

subsection \<open>A good position leads to a queued one\<close>

lemma good_leads_to_queued:
  assumes "frontier_inv ps st" "good st ps i" "i < length ps"
  shows "\<exists>j < length ps. queued st ps j"
  using assms(2,3)
proof (induction "length ps - i" arbitrary: i)
  case 0
  then show ?case by simp
next
  case (Suc k)
  from assms(1) Suc.prems
  have "queued st ps i \<or> (Suc i < length ps \<and> good st ps (Suc i))"
    unfolding frontier_inv_def by blast
  then show ?case
  proof
    assume "queued st ps i"
    then show ?thesis using Suc.prems(2) by blast
  next
    assume a: "Suc i < length ps \<and> good st ps (Suc i)"
    have "k = length ps - Suc i" using Suc.hyps(2) by simp
    from Suc.hyps(1)[OF this] a show ?thesis by blast
  qed
qed

lemma good_start:
  assumes "search_inv start g st" "ps \<noteq> []" "hd ps = start"
  shows "good st ps 0"
proof -
  have "cost_so_far st start = Some 0"
    using assms(1) by (simp add: search_inv_def inv_start_def)
  moreover have "ps ! 0 = start" using assms(2,3) by (simp add: hd_conv_nth)
  moreover have "path_cost (take (Suc 0) ps) = 0" using assms(2) by (cases ps) simp_all
  ultimately show ?thesis by (simp add: good_def)
qed

subsection \<open>The optimality invariants are kept\<close>

lemma good_relax:
  assumes "good st ps i"
  shows "good (relax goal cur c st nb) ps i"
proof -
  obtain c0 where c0: "cost_so_far st (ps ! i) = Some c0" "c0 \<le> path_cost (take (Suc i) ps)"
    using assms by (auto simp: good_def)
  obtain c1 where "cost_so_far (relax goal cur c st nb) (ps ! i) = Some c1" "c1 \<le> c0"
    using relax_cost_le[OF c0(1)] by blast
  then show ?thesis using c0(2) by (auto simp: good_def)
qed

lemma queued_relax:
  assumes "queued st ps i"
  shows "queued (relax goal cur c st nb) ps i"
  using assms relax_open_set[of st goal cur c nb] unfolding queued_def by blast

lemma new_good_queued:
  assumes "\<not> good st ps i" "good (relax goal cur c st nb) ps i"
  shows "queued (relax goal cur c st nb) ps i"
proof (cases "improves (c + step_cost cur nb) st nb")
  case False
  then show ?thesis using assms by (simp add: relax_eq)
next
  case True
  let ?nc = "c + step_cost cur nb"
  have eq: "relax goal cur c st nb = recorded goal cur ?nc st nb"
    using True by (simp add: relax_eq)
  obtain c1 where c1: "((cost_so_far st)(nb \<mapsto> ?nc)) (ps ! i) = Some c1"
    "c1 \<le> path_cost (take (Suc i) ps)"
    using assms(2) by (auto simp: good_def eq recorded_simps)
  have "ps ! i = nb"
  proof (rule ccontr)
    assume "ps ! i \<noteq> nb"
    then have "good st ps i" using c1 by (auto simp: good_def)
    then show False using assms(1) by simp
  qed
  then have "?nc \<le> path_cost (take (Suc i) ps)" using c1 by simp
  then show ?thesis
    using \<open>ps ! i = nb\<close> by (auto simp: queued_def eq recorded_simps)
qed

lemma relax_frontier_step:
  assumes inv: "relax_frontier_inv ps cur c (nb # rem) st"
  shows "relax_frontier_inv ps cur c rem (relax goal cur c st nb)"
  unfolding relax_frontier_inv_def
proof (intro allI impI)
  let ?st' = "relax goal cur c st nb"
  fix i assume i: "i < length ps" and g': "good ?st' ps i"
  show "queued ?st' ps i \<or> (Suc i < length ps \<and> (good ?st' ps (Suc i) \<or> pending cur c rem ps i))"
  proof (cases "good st ps i")
    case False
    then show ?thesis using new_good_queued[OF False g'] by simp
  next
    case True
    with inv i have "queued st ps i \<or>
        (Suc i < length ps \<and> (good st ps (Suc i) \<or> pending cur c (nb # rem) ps i))"
      unfolding relax_frontier_inv_def by blast
    then consider "queued st ps i" | "Suc i < length ps" "good st ps (Suc i)"
      | "Suc i < length ps" "pending cur c (nb # rem) ps i" by blast
    then show ?thesis
    proof cases
      case 1
      then show ?thesis using queued_relax by blast
    next
      case 2
      then show ?thesis using good_relax by blast
    next
      case 3
      then have p: "ps ! i = cur" "c \<le> path_cost (take (Suc i) ps)" "ps ! Suc i \<in> set (nb # rem)"
        by (simp_all add: pending_def)
      show ?thesis
      proof (cases "ps ! Suc i = nb")
        case True
        obtain c1 where c1: "cost_so_far ?st' nb = Some c1" "c1 \<le> c + step_cost cur nb"
          using relax_cost_neighbor[of goal cur c st nb] by blast
        have "c + step_cost cur nb \<le> path_cost (take (Suc (Suc i)) ps)"
          using p(1,2) True by (simp add: prefix_cost_Suc[OF 3(1)])
        then have "good ?st' ps (Suc i)"
          using c1 True by (auto simp: good_def)
        then show ?thesis using 3(1) by blast
      next
        case False
        then have "pending cur c rem ps i" using p by (simp add: pending_def)
        then show ?thesis using 3(1) by blast
      qed
    qed
  qed
qed

lemma relax_frontier_foldl:
  assumes "relax_frontier_inv ps cur c ns st"
  shows "frontier_inv ps (foldl (relax goal cur c) st ns)"
  using assms
proof (induction ns arbitrary: st)
  case Nil
  then show ?case by (simp add: relax_frontier_inv_def frontier_inv_def pending_def)
next
  case (Cons nb ns)
  then show ?case using relax_frontier_step by simp
qed

lemma frontier_inv_pop:
  assumes fi: "frontier_inv ps st"
    and pop: "heappop (open_set st) = Inr ((f, c, n), rest)"
    and ns: "get_neighbors n g = Inr ns"
    and legal: "legal_path g ps" and ne: "ps \<noteq> []" and ng: "n \<noteq> last ps"
  shows "relax_frontier_inv ps n c ns (st\<lparr>open_set := rest\<rparr>)"
  unfolding relax_frontier_inv_def
proof (intro allI impI)
  let ?st0 = "st\<lparr>open_set := rest\<rparr>"
  fix i assume i: "i < length ps" and g0: "good ?st0 ps i"
  have gs: "good st ps j = good ?st0 ps j" for j by (simp add: good_def)
  from fi i g0 have "queued st ps i \<or> (Suc i < length ps \<and> good st ps (Suc i))"
    unfolding frontier_inv_def gs by blast
  then show "queued ?st0 ps i \<or>
      (Suc i < length ps \<and> (good ?st0 ps (Suc i) \<or> pending n c ns ps i))"
  proof
    assume "queued st ps i"
    then obtain e where e: "e \<in> set (open_set st)" "snd (snd e) = ps ! i"
      "fst (snd e) \<le> path_cost (take (Suc i) ps)"
      unfolding queued_def by blast
    show ?thesis
    proof (cases "e = (f, c, n)")
      case True
      then have pi: "ps ! i = n" and ci: "c \<le> path_cost (take (Suc i) ps)" using e by simp_all
      have "i \<noteq> length ps - 1" using pi ng ne by (auto simp: last_conv_nth)
      then have si: "Suc i < length ps" using i by simp
      have "is_neighbor g (ps ! i) (ps ! Suc i)" by (rule legal_path_nth[OF legal si])
      then have "ps ! Suc i \<in> set ns" using pi ns by (simp add: is_neighbor_def)
      then show ?thesis using si pi ci by (simp add: pending_def)
    next
      case False
      then have "e \<in> set rest" using e(1) heappop_props(5)[OF pop] by auto
      then have "queued ?st0 ps i" using e(2,3) unfolding queued_def by auto
      then show ?thesis by simp
    qed
  next
    assume "Suc i < length ps \<and> good st ps (Suc i)"
    then show ?thesis unfolding gs by simp
  qed
qed

lemma prio_inv_relax:
  assumes "prio_inv goal st"
  shows "prio_inv goal (relax goal cur c st nb)"
  using assms heuristic_nonneg[of nb goal]
  by (auto simp: prio_inv_def relax_eq recorded_simps)

lemma prio_inv_foldl:
  assumes "prio_inv goal st"
  shows "prio_inv goal (foldl (relax goal cur c) st ns)"
  using assms by (induction ns arbitrary: st) (simp_all add: prio_inv_relax)

lemma prio_inv_initial: "prio_inv goal (initial_state start)"
  by (simp add: prio_inv_def initial_state_def heappush_def heuristic_nonneg)

lemma frontier_inv_initial:
  assumes "ps \<noteq> []" "hd ps = start"
  shows "frontier_inv ps (initial_state start)"
  unfolding frontier_inv_def
proof (intro allI impI)
  fix i assume i: "i < length ps" and g: "good (initial_state start) ps i"
  then have s: "ps ! i = start" and c: "0 \<le> path_cost (take (Suc i) ps)"
    by (auto simp: good_def initial_state_def split: if_splits)
  then have "queued (initial_state start) ps i"
    by (simp add: queued_def initial_state_def heappush_def)
  then show "queued (initial_state start) ps i \<or>
      (Suc i < length ps \<and> good (initial_state start) ps (Suc i))" by simp
qed

subsection \<open>The cost recorded for the goal is minimal\<close>

lemma entry_le_priority:
  fixes e e' :: entry
  assumes "e \<le> e'"
  shows "fst e \<le> fst e'"
  using assms by (cases e, cases e') (auto simp: less_eq_prod_def)

lemma prio_inv_popped:
  assumes "prio_inv goal st" "heappop (open_set st) = Inr (e, rest)"
  shows "prio_inv goal (st\<lparr>open_set := rest\<rparr>)"
  using assms(1) heappop_props(4)[OF assms(2)] by (auto simp: prio_inv_def)

lemma search_optimal:
  assumes legal: "legal_path g ps" and ne: "ps \<noteq> []" and hd: "hd ps = start"
    and last: "last ps = goal" and sg: "start \<noteq> goal"
  shows "\<exists>st c. search goal g (initial_state start) = Some (Inr st) \<and> search_inv start g st \<and>
           cost_so_far st goal = Some c \<and> c \<le> path_cost ps"
proof -
  let ?P = "\<lambda>st. frontier_inv ps st \<and> prio_inv goal st"
  let ?Q = "\<lambda>r. \<exists>st c. r = Inr st \<and> search_inv start g st \<and>
                 cost_so_far st goal = Some c \<and> c \<le> path_cost ps"
  have len: "Suc 0 < length ps"
  proof (rule ccontr)
    assume "\<not> Suc 0 < length ps"
    then have "length ps = 1" using ne by (cases ps) simp_all
    then obtain p where "ps = [p]" by (cases ps) simp_all
    then show False using hd last sg by simp
  qed
  have first: "is_neighbor g start (ps ! Suc 0)"
    using legal_path_nth[OF legal len] hd ne by (simp add: hd_conv_nth)
  have "\<exists>r. search goal g (initial_state start) = Some r \<and> ?Q r"
  proof (rule search_total[where P = ?P and start = start])
    show "search_inv start g (initial_state start)" by (rule search_inv_initial)
    show "?P (initial_state start)"
      using frontier_inv_initial[OF ne hd] prio_inv_initial by simp
  next
    fix st f c n rest ns
    assume P: "?P st" and pop: "heappop (open_set st) = Inr ((f, c, n), rest)"
      and ng: "n \<noteq> goal" and ns: "get_neighbors n g = Inr ns"
    have "relax_frontier_inv ps n c ns (st\<lparr>open_set := rest\<rparr>)"
      using frontier_inv_pop[OF _ pop ns legal ne] P ng last by simp
    then have "frontier_inv ps (foldl (relax goal n c) (st\<lparr>open_set := rest\<rparr>) ns)"
      by (rule relax_frontier_foldl)
    moreover have "prio_inv goal (foldl (relax goal n c) (st\<lparr>open_set := rest\<rparr>) ns)"
      using prio_inv_foldl[OF prio_inv_popped[OF _ pop]] P by simp
    ultimately show "?P (foldl (relax goal n c) (st\<lparr>open_set := rest\<rparr>) ns)" by simp
  next
    fix st
    assume inv: "search_inv start g st" and P: "?P st" and empty: "open_set st = []"
    have "good st ps 0" by (rule good_start[OF inv ne hd])
    then obtain j where "queued st ps j"
      using good_leads_to_queued[of ps st 0] P ne by auto
    then have False using empty by (simp add: queued_def)
    then show "?Q (Inr st)" by simp
  next
    fix st f c rest
    assume inv: "search_inv start g st" and P: "?P st"
      and pop: "heappop (open_set st) = Inr ((f, c, goal), rest)"
    have "good st ps 0" by (rule good_start[OF inv ne hd])
    then obtain j where j: "j < length ps" "queued st ps j"
      using good_leads_to_queued[of ps st 0] P ne by auto
    then obtain e where e: "e \<in> set (open_set st)" "snd (snd e) = ps ! j"
      "fst (snd e) \<le> path_cost (take (Suc j) ps)"
      unfolding queued_def by blast
    have pe: "fst e \<le> fst (snd e) + heuristic (snd (snd e)) goal"
      using P e(1) unfolding prio_inv_def by blast
    have pm: "(f, c, goal) \<in> set (open_set st)" using heappop_props(2)[OF pop] .
    then have cf: "c \<le> f" using P unfolding prio_inv_def by fastforce
    have "(f, c, goal) \<le> e" using heappop_props(3)[OF pop] e(1) by blast
    then have "f \<le> fst e" using entry_le_priority by fastforce
    moreover have "heuristic (ps ! j) goal \<le> path_cost (drop j ps)"
      using heuristic_suffix[OF legal j(1)] last by simp
    ultimately have "c \<le> path_cost (take (Suc j) ps) + path_cost (drop j ps)"
      using cf pe e(2,3) by simp
    then have cle: "c \<le> path_cost ps" using path_cost_split[OF j(1)] by simp
    have "inv_heap st" using inv by (simp add: search_inv_def)
    then obtain c' where c': "cost_so_far st goal = Some c'" "c' \<le> c"
      using pm unfolding inv_heap_def by fastforce
    show "?Q (Inr (st\<lparr>open_set := rest\<rparr>))"
      using search_inv_popped[OF inv pop] c' cle by simp
  next
    fix st f c n rest e
    assume inv: "search_inv start g st" and pop: "heappop (open_set st) = Inr ((f, c, n), rest)"
      and raised: "get_neighbors n g = Inl e"
    have "(f, c, n) \<in> set (open_set st)" using heappop_props(2)[OF pop] .
    moreover have "inv_heap st" "inv_costs start g st" using inv by (simp_all add: search_inv_def)
    ultimately have "n = start \<or> in_bounds g n"
      unfolding inv_heap_def inv_costs_def by fastforce
    then have False
    proof
      assume "n = start"
      then show False using first raised by (simp add: is_neighbor_def)
    next
      assume "in_bounds g n"
      then show False using get_neighbors_in_bounds[of g n] raised by simp
    qed
    then show "?Q (Inl e)" by simp
  qed
  then show ?thesis by blast
qed

text \<open>
  With the goal different from the start and reachable from it, \<^verbatim>\<open>astar\<close> returns a legal
  path from the start to the goal that costs no more than any legal path between them.
\<close>

lemma astar_optimal:
  assumes "start \<noteq> goal" "reachable g start goal"
  shows "\<exists>path. astar start goal g = Some (Inr (Some path)) \<and>
           path \<noteq> [] \<and> hd path = start \<and> last path = goal \<and> legal_path g path \<and>
           (\<forall>ps. ps \<noteq> [] \<and> hd ps = start \<and> last ps = goal \<and> legal_path g ps
                 \<longrightarrow> path_cost path \<le> path_cost ps)"
proof -
  have one: "\<exists>path. astar start goal g = Some (Inr (Some path)) \<and>
           path \<noteq> [] \<and> hd path = start \<and> last path = goal \<and> legal_path g path \<and>
           path_cost path \<le> path_cost ps"
    if ps: "ps \<noteq> []" "hd ps = start" "last ps = goal" "legal_path g ps" for ps
  proof -
    obtain st c where st: "search goal g (initial_state start) = Some (Inr st)"
      "search_inv start g st" "cost_so_far st goal = Some c" "c \<le> path_cost ps"
      using search_optimal[OF ps(4,1,2,3) assms(1)] by blast
    have "inv_dom start st" using st(2) by (simp add: search_inv_def)
    moreover have "goal \<noteq> start" using assms(1) by simp
    ultimately have "(cost_so_far st goal = None) = (came_from st goal = None)"
      unfolding inv_dom_def by blast
    then have "came_from st goal \<noteq> None" using st(3) by simp
    then show ?thesis using astar_of_search[OF st(1,2)] st(3,4) by fastforce
  qed
  obtain ps0 where ps0: "ps0 \<noteq> []" "hd ps0 = start" "last ps0 = goal" "legal_path g ps0"
    using assms(2) unfolding reachable_def by blast
  obtain path where path: "astar start goal g = Some (Inr (Some path))"
    "path \<noteq> []" "hd path = start" "last path = goal" "legal_path g path"
    using one[OF ps0] by blast
  have "path_cost path \<le> path_cost ps"
    if "ps \<noteq> []" "hd ps = start" "last ps = goal" "legal_path g ps" for ps
    using one[OF that] path(1) by auto
  then show ?thesis using path by blast
qed

text \<open>
  An instance: on the row of two free cells the goal \<open>(0, 1)\<close> is reachable from \<open>(0, 0)\<close>,
  and the path returned is the cheapest.
\<close>

lemma astar_optimal_example:
  "reachable free_1x2 (0, 0) (0, 1) \<and>
   (\<exists>path. astar (0, 0) (0, 1) free_1x2 = Some (Inr (Some path)) \<and> path_cost path = 1)"
proof -
  have "legal_path free_1x2 [(0, 0), (0, 1)]"
    by (simp add: is_neighbor_def get_neighbors_1x2_00)
  then have r: "reachable free_1x2 (0, 0) (0, 1)"
    unfolding reachable_def by (intro exI[of _ "[(0, 0), (0, 1)]"]) simp
  have "path_cost [(0, 0), (0, 1)] = 1" by (simp add: step_cost_def)
  then show ?thesis using r astar_1x2 by simp
qed

subsection \<open>Every execution has the outcome that the model computes\<close>














end
